theory Spec2Isabelle
  imports Complex_Main
begin

section \<open>The sudoku solver of solver.py\<close>

text \<open>
  The solver keeps, for every cell of the grid, the list of values the cell can still
  take (\<open>possibilities\<close>).  A puzzle is the tuple of its cells in row-major order.
  Python exceptions are values of the type \<open>error\<close>; every function that can raise
  returns \<open>error + result\<close> with \<open>Inl\<close> for the exception.  Python integers are \<open>int\<close>.
\<close>

subsection \<open>Exceptions and raw input values\<close>

datatype error =
    ClashException
  | AssertionError
  | ValueError
  | TypeError
  | ZeroDivisionError
  | IndexError

text \<open>
  The argument \<open>value\<close> of \<open>Cell.__init__\<close> is untyped in the source and goes through
  the builtin \<open>int(...)\<close> first.  The model covers the kinds of argument the docstring and
  the callers speak of, told apart by what the builtin does with them: an integer, which
  it returns; a string that it parses as an integer; a string that it rejects with
  \<open>ValueError\<close>; and \<open>None\<close>, the default, on which it raises \<open>TypeError\<close>.
\<close>

datatype raw_value =
    IntVal int
  | NumStr int
  | BadStr
  | NoneVal

definition py_int :: "raw_value \<Rightarrow> error + int" where
  "py_int v =
     (case v of
        IntVal n \<Rightarrow> Inr n
      | NumStr n \<Rightarrow> Inr n
      | BadStr \<Rightarrow> Inl ValueError
      | NoneVal \<Rightarrow> Inl TypeError)"

subsection \<open>Cells\<close>

record cell =
  row :: int
  col :: int
  subgrid :: "int \<times> int"
  possibilities :: "int list"

text \<open>
  \<open>Cell.__init__\<close>: only \<open>ValueError\<close> is caught around \<open>int(value)\<close>; floor division
  by a zero order raises \<open>ZeroDivisionError\<close>.
\<close>

definition Cell_init :: "int \<Rightarrow> int \<Rightarrow> int \<Rightarrow> raw_value \<Rightarrow> error + cell" where
  "Cell_init r c sudoku_order v =
     (case (case py_int v of
              Inl e \<Rightarrow> if e = ValueError then Inr 0 else Inl e
            | Inr n \<Rightarrow> Inr n) of
        Inl e \<Rightarrow> Inl e
      | Inr n \<Rightarrow>
          if sudoku_order = 0 then Inl ZeroDivisionError
          else Inr \<lparr>row = r, col = c,
                    subgrid = (r div sudoku_order, c div sudoku_order),
                    possibilities = (if n \<noteq> 0 then [n] else [1..sudoku_order ^ 2])\<rparr>)"

text \<open>The property \<open>Cell.value\<close>: the only possibility left, or 0.\<close>

definition cell_value :: "cell \<Rightarrow> int" where
  "cell_value c = (if length (possibilities c) = 1 then possibilities c ! 0 else 0)"

text \<open>The setter of \<open>Cell.value\<close>.\<close>

definition set_value :: "cell \<Rightarrow> int \<Rightarrow> error + cell" where
  "set_value c val =
     (if val \<in> set (possibilities c) then Inr (c\<lparr>possibilities := [val]\<rparr>)
      else Inl ClashException)"

text \<open>
  \<open>Cell.eliminate\<close> returns the changed cell together with the integer the method
  returns.  \<open>list.remove\<close> deletes the first occurrence and raises \<open>ValueError\<close> when
  there is none, which the method turns into the result 0.
\<close>

definition cell_eliminate :: "cell \<Rightarrow> int \<Rightarrow> error + (cell \<times> int)" where
  "cell_eliminate c v =
     (if length (possibilities c) = 1 \<and> possibilities c ! 0 = v then Inl ClashException
      else if v \<in> set (possibilities c)
        then (let c' = c\<lparr>possibilities := remove1 v (possibilities c)\<rparr>
              in Inr (c', cell_value c'))
      else Inr (c, 0))"

definition matches :: "cell \<Rightarrow> cell \<Rightarrow> bool" where
  "matches c other = (row c = row other \<or> col c = col other \<or> subgrid c = subgrid other)"

text \<open>\<open>Cell.__eq__\<close> compares the coordinates only.\<close>

definition cell_eq :: "cell \<Rightarrow> cell \<Rightarrow> bool" where
  "cell_eq c other = (row c = row other \<and> col c = col other)"

subsection \<open>Validation and construction\<close>

text \<open>
  \<open>validate_array\<close>: the number of rows is a square (\<open>sqrt(n_rows) % 1\<close> is zero), every
  row is as long as the array, and every entry lies in \<open>range(order ** 2 + 1)\<close>.  A failed
  \<open>assert\<close> raises \<open>AssertionError\<close>.  The entries are integers here.
\<close>

definition validate_array :: "int list list \<Rightarrow> error + int" where
  "validate_array array =
     (let n_rows = length array in
      case find (\<lambda>k. k * k = n_rows) [0..<Suc n_rows] of
        None \<Rightarrow> Inl AssertionError
      | Some sudoku_order \<Rightarrow>
          if list_all (\<lambda>r. length r = n_rows \<and>
                            list_all (\<lambda>x. 0 \<le> x \<and> x \<le> int (sudoku_order ^ 2)) r) array
          then Inr (int sudoku_order)
          else Inl AssertionError)"

fun sequence :: "(error + 'a) list \<Rightarrow> error + 'a list" where
  "sequence [] = Inr []"
| "sequence (x # xs) =
     (case x of
        Inl e \<Rightarrow> Inl e
      | Inr y \<Rightarrow> (case sequence xs of Inl e \<Rightarrow> Inl e | Inr ys \<Rightarrow> Inr (y # ys)))"

definition cells_from_arr :: "int list list \<Rightarrow> int \<Rightarrow> error + cell list" where
  "cells_from_arr arr sudoku_order =
     sequence (concat (map (\<lambda>(row_idx, r).
        map (\<lambda>(col_idx, v). Cell_init (int row_idx) (int col_idx) sudoku_order (IntVal v))
            (enumerate 0 r)) (enumerate 0 arr)))"

text \<open>
  A \<open>Sudoku\<close> object holds the tuple \<open>cells\<close> and a template string for printing; the
  template plays no part in solving and is left out.
\<close>

type_synonym sudoku = "cell list"

definition Sudoku_init :: "int list list \<Rightarrow> error + sudoku" where
  "Sudoku_init arr =
     (case validate_array arr of
        Inl e \<Rightarrow> Inl e
      | Inr sudoku_order \<Rightarrow> cells_from_arr arr sudoku_order)"

subsection \<open>Queries\<close>

definition is_solved :: "sudoku \<Rightarrow> bool" where
  "is_solved s = list_all (\<lambda>c. cell_value c \<noteq> 0) s"

text \<open>
  \<open>progress\<close> is a true division of two integers; the quotient is a rational number
  (the float the interpreter returns is its rounding).
\<close>

definition progress :: "sudoku \<Rightarrow> error + rat" where
  "progress s =
     (if length s = 0 then Inl ZeroDivisionError
      else Inr (of_nat (length (filter (\<lambda>c. cell_value c \<noteq> 0) s)) / of_nat (length s)))"

subsection \<open>Propagation: \<open>Sudoku.eliminate\<close>\<close>

text \<open>
  \<open>Sudoku.eliminate(cell)\<close> reads the value of \<open>cell\<close> once and then walks over the
  tuple of cells.  After that it only reads the coordinates of \<open>cell\<close>, which never
  change, so the model passes the cell as it is at the time of the call.  The walk is
  \<open>eliminate_loop\<close>, with the position \<open>idx\<close> in the tuple; the state is threaded
  through the recursive call, as the cells are changed in place.  An exception leaves
  the method at once.  The model puts no bound on the depth of the recursion, here and in
  \<open>solve\<close>: the limit that the interpreter sets on the depth of its call stack is not
  part of it.
\<close>

function eliminate :: "sudoku \<Rightarrow> cell \<Rightarrow> error + sudoku"
  and eliminate_loop :: "sudoku \<Rightarrow> cell \<Rightarrow> int \<Rightarrow> nat \<Rightarrow> error + sudoku"
where
  "eliminate s c =
     (let v = cell_value c in
      if v = 0 then Inr s else eliminate_loop s c v 0)"
| "eliminate_loop s c v idx =
     (if length s \<le> idx then Inr s
      else
        let other_cell = s ! idx in
        if cell_eq c other_cell then eliminate_loop s c v (Suc idx)
        else if matches c other_cell then
          (case cell_eliminate other_cell v of
             Inl e \<Rightarrow> Inl e
           | Inr (other', newly_set) \<Rightarrow>
               let s' = s[idx := other'] in
               if newly_set \<noteq> 0 then
                 (case eliminate s' other' of
                    Inl e \<Rightarrow> Inl e
                  | Inr s'' \<Rightarrow> eliminate_loop s'' c v (Suc idx))
               else eliminate_loop s' c v (Suc idx))
        else eliminate_loop s c v (Suc idx))"
  by pat_completeness auto

text \<open>
  The recursion is nested: the walk goes on in the state the inner call returns.  Its
  termination rests on the number of candidates left in the whole puzzle, which no call
  increases and which every cascade step decreases.
\<close>

definition total :: "sudoku \<Rightarrow> nat" where
  "total s = sum_list (map (\<lambda>c. length (possibilities c)) s)"

definition elim_rank ::
  "(sudoku \<times> cell) + (sudoku \<times> cell \<times> int \<times> nat) \<Rightarrow> nat \<times> nat" where
  "elim_rank x =
     (case x of
        Inl (s, c) \<Rightarrow> (total s, length s + 1)
      | Inr (s, c, v, idx) \<Rightarrow> (total s, length s - idx))"

lemma total_update:
  "idx < length s \<Longrightarrow>
   total (s[idx := c']) + length (possibilities (s ! idx)) = total s + length (possibilities c')"
  unfolding total_def
  by (induction s arbitrary: idx) (auto split: nat.splits)

lemma cell_eliminate_length:
  "cell_eliminate c v = Inr (c', n) \<Longrightarrow> length (possibilities c') \<le> length (possibilities c)"
  by (auto simp: cell_eliminate_def Let_def length_remove1 split: if_splits)

lemma cell_eliminate_newly_set:
  assumes "cell_eliminate c v = Inr (c', n)" and "n \<noteq> 0"
  shows "Suc (length (possibilities c')) = length (possibilities c)"
proof -
  from assms have mem: "v \<in> set (possibilities c)"
    by (auto simp: cell_eliminate_def Let_def split: if_splits)
  with assms have "possibilities c' = remove1 v (possibilities c)"
    by (auto simp: cell_eliminate_def Let_def split: if_splits)
  with mem length_pos_if_in_set[OF mem] show ?thesis
    by (simp add: length_remove1)
qed

lemma total_quiet_step:
  "idx < length s \<Longrightarrow> cell_eliminate (s ! idx) v = Inr (c', n) \<Longrightarrow>
   total (s[idx := c']) \<le> total s"
  using total_update[of idx s c'] cell_eliminate_length[of "s ! idx" v c' n] by simp

lemma total_cascade_step:
  "idx < length s \<Longrightarrow> cell_eliminate (s ! idx) v = Inr (c', n) \<Longrightarrow> n \<noteq> 0 \<Longrightarrow>
   total (s[idx := c']) < total s"
  using total_update[of idx s c'] cell_eliminate_newly_set[of "s ! idx" v c' n] by simp

lemma eliminate_loop_pcases:
  assumes "eliminate_eliminate_loop_dom (Inr (s, c, v, idx))"
  shows "length s \<le> idx \<Longrightarrow> eliminate_loop s c v idx = Inr s"
    and "idx < length s \<Longrightarrow> cell_eq c (s ! idx) \<or> \<not> matches c (s ! idx) \<Longrightarrow>
         eliminate_loop s c v idx = eliminate_loop s c v (Suc idx)"
    and "idx < length s \<Longrightarrow> \<not> cell_eq c (s ! idx) \<Longrightarrow> matches c (s ! idx) \<Longrightarrow>
         cell_eliminate (s ! idx) v = Inl e \<Longrightarrow> eliminate_loop s c v idx = Inl e"
    and "idx < length s \<Longrightarrow> \<not> cell_eq c (s ! idx) \<Longrightarrow> matches c (s ! idx) \<Longrightarrow>
         cell_eliminate (s ! idx) v = Inr (c', 0) \<Longrightarrow>
         eliminate_loop s c v idx = eliminate_loop (s[idx := c']) c v (Suc idx)"
    and "idx < length s \<Longrightarrow> \<not> cell_eq c (s ! idx) \<Longrightarrow> matches c (s ! idx) \<Longrightarrow>
         cell_eliminate (s ! idx) v = Inr (c', n) \<Longrightarrow> n \<noteq> 0 \<Longrightarrow>
         eliminate_loop s c v idx =
           (case eliminate (s[idx := c']) c' of
              Inl e \<Rightarrow> Inl e
            | Inr s'' \<Rightarrow> eliminate_loop s'' c v (Suc idx))"
  using assms by (auto simp: eliminate_loop.psimps Let_def)

lemma eliminate_loop_step_cases:
  obtains (fin) "length s \<le> idx"
  | (skip) "idx < length s" "cell_eq c (s ! idx) \<or> \<not> matches c (s ! idx)"
  | (clash) e where "idx < length s" "\<not> cell_eq c (s ! idx)" "matches c (s ! idx)"
      "cell_eliminate (s ! idx) v = Inl e"
  | (quiet) c' where "idx < length s" "\<not> cell_eq c (s ! idx)" "matches c (s ! idx)"
      "cell_eliminate (s ! idx) v = Inr (c', 0)"
  | (cascade) c' n where "idx < length s" "\<not> cell_eq c (s ! idx)" "matches c (s ! idx)"
      "cell_eliminate (s ! idx) v = Inr (c', n)" "n \<noteq> 0"
  by (cases "cell_eliminate (s ! idx) v") (force simp: not_le)+

lemma eliminate_total_partial:
  "eliminate_eliminate_loop_dom (Inl (s, c)) \<Longrightarrow> eliminate s c = Inr r \<Longrightarrow>
   total r \<le> total s"
  "eliminate_eliminate_loop_dom (Inr (s, c, v, idx)) \<Longrightarrow> eliminate_loop s c v idx = Inr r \<Longrightarrow>
   total r \<le> total s"
proof (induction s c and s c v idx arbitrary: r and r rule: eliminate_eliminate_loop.pinduct)
  case (1 s c)
  then show ?case
    by (auto simp: eliminate.psimps Let_def split: if_splits)
next
  case (2 s c v idx)
  note dom = "2.hyps" and run = "2.prems"
  note unf = eliminate_loop_pcases[OF dom]
  show ?case
  proof (cases rule: eliminate_loop_step_cases[where s=s and c=c and v=v and idx=idx])
    case fin
    with run unf(1) show ?thesis by simp
  next
    case skip
    from skip run unf(2) have "eliminate_loop s c v (Suc idx) = Inr r" by simp
    with skip "2.IH"(1,5) show ?thesis by (auto simp: not_le)
  next
    case clash
    with run unf(3) show ?thesis by simp
  next
    case (quiet c')
    from quiet run unf(4) have "eliminate_loop (s[idx := c']) c v (Suc idx) = Inr r" by simp
    with quiet "2.IH"(4)[of "s ! idx" "(c', 0)" c' 0 "s[idx := c']" r]
    have "total r \<le> total (s[idx := c'])" by (simp add: not_le)
    with total_quiet_step[OF quiet(1,4)] show ?thesis by simp
  next
    case (cascade c' n)
    from cascade run unf(5) obtain s'' where
      inner: "eliminate (s[idx := c']) c' = Inr s''" and
      outer: "eliminate_loop s'' c v (Suc idx) = Inr r"
      by (auto split: sum.splits)
    from cascade inner "2.IH"(2)[of "s ! idx" "(c', n)" c' n "s[idx := c']" s'']
    have a: "total s'' \<le> total (s[idx := c'])" by (simp add: not_le)
    from cascade inner outer "2.IH"(3)[of "s ! idx" "(c', n)" c' n "s[idx := c']" s'' r]
    have b: "total r \<le> total s''" by (simp add: not_le)
    from a b total_quiet_step[OF cascade(1,4)] show ?thesis by simp
  qed
qed

lemma eliminate_dom_total: "All eliminate_eliminate_loop_dom"
proof (rule "eliminate_eliminate_loop.termination"
    [where R = "inv_image (less_than <*lex*> less_than) elim_rank"], goal_cases)
  case 1
  show ?case by (intro wf_inv_image wf_lex_prod wf_less_than)
next
  case (2 s c x)
  then show ?case by (simp add: elim_rank_def)
next
  case (3 s c v idx x)
  then show ?case by (auto simp: elim_rank_def)
next
  case (4 s c v idx x b xa y xb)
  then have ce: "cell_eliminate (s ! idx) v = Inr (xa, y)" and lt: "idx < length s" by auto
  from total_cascade_step[OF lt ce] 4 show ?case by (auto simp: elim_rank_def)
next
  case (5 s c v idx x b xa y xb ba)
  then have ce: "cell_eliminate (s ! idx) v = Inr (xa, y)" and lt: "idx < length s" by auto
  from 5 have "total ba \<le> total xb" by (auto dest: eliminate_total_partial(1))
  with total_cascade_step[OF lt ce] 5 show ?case by (auto simp: elim_rank_def)
next
  case (6 s c v idx x b xa y xb)
  then have ce: "cell_eliminate (s ! idx) v = Inr (xa, y)" and lt: "idx < length s" by auto
  from total_quiet_step[OF lt ce] 6 show ?case by (auto simp: elim_rank_def)
next
  case (7 s c v idx x)
  then show ?case by (auto simp: elim_rank_def)
qed

termination eliminate
  by (rule eliminate_dom_total)

declare eliminate.simps [simp del] eliminate_loop.simps [simp del]

subsection \<open>Invariants of the propagation\<close>

text \<open>
  The case analysis of one step of the loop, the induction rule that follows the calls of
  \<open>eliminate\<close>, and what a run keeps: the coordinates, the determined cells, and that
  candidates are only ever removed.
\<close>

lemma eliminate_unfold:
  "eliminate s c = (if cell_value c = 0 then Inr s else eliminate_loop s c (cell_value c) 0)"
  by (simp add: eliminate.simps Let_def)

lemmas eliminate_loop_cases =
  eliminate_loop_pcases[OF eliminate_dom_total[THEN spec]]

lemma eliminate_induct [case_names elim fin skip clash quiet cascade]:
  assumes "\<And>s c. (cell_value c \<noteq> 0 \<Longrightarrow> Q s c (cell_value c) 0) \<Longrightarrow> P s c"
    and "\<And>s c v idx. length s \<le> idx \<Longrightarrow> Q s c v idx"
    and "\<And>s c v idx. idx < length s \<Longrightarrow> cell_eq c (s ! idx) \<or> \<not> matches c (s ! idx) \<Longrightarrow>
           Q s c v (Suc idx) \<Longrightarrow> Q s c v idx"
    and "\<And>s c v idx e. idx < length s \<Longrightarrow> \<not> cell_eq c (s ! idx) \<Longrightarrow> matches c (s ! idx) \<Longrightarrow>
           cell_eliminate (s ! idx) v = Inl e \<Longrightarrow> Q s c v idx"
    and "\<And>s c v idx c'. idx < length s \<Longrightarrow> \<not> cell_eq c (s ! idx) \<Longrightarrow> matches c (s ! idx) \<Longrightarrow>
           cell_eliminate (s ! idx) v = Inr (c', 0) \<Longrightarrow>
           Q (s[idx := c']) c v (Suc idx) \<Longrightarrow> Q s c v idx"
    and "\<And>s c v idx c' n. idx < length s \<Longrightarrow> \<not> cell_eq c (s ! idx) \<Longrightarrow> matches c (s ! idx) \<Longrightarrow>
           cell_eliminate (s ! idx) v = Inr (c', n) \<Longrightarrow> n \<noteq> 0 \<Longrightarrow>
           P (s[idx := c']) c' \<Longrightarrow>
           (\<And>s''. eliminate (s[idx := c']) c' = Inr s'' \<Longrightarrow> Q s'' c v (Suc idx)) \<Longrightarrow>
           Q s c v idx"
  shows "P s c" and "Q s c v idx"
proof (induction s c and s c v idx rule: eliminate_eliminate_loop.induct)
  case (1 s c)
  show ?case
  proof (rule assms(1))
    assume "cell_value c \<noteq> 0"
    then show "Q s c (cell_value c) 0" using "1.IH" by simp
  qed
next
  case (2 s c v idx)
  show ?case
  proof (cases rule: eliminate_loop_step_cases[where s=s and c=c and v=v and idx=idx])
    case fin
    then show ?thesis by (rule assms(2))
  next
    case skip
    from skip "2.IH"(1,5) have "Q s c v (Suc idx)" by (auto simp: not_le)
    with skip show ?thesis by (rule assms(3))
  next
    case (clash e)
    then show ?thesis by (rule assms(4))
  next
    case (quiet c')
    with "2.IH"(4)[of "s ! idx" "(c', 0)" c' 0 "s[idx := c']"]
    have "Q (s[idx := c']) c v (Suc idx)" by (simp add: not_le)
    with quiet show ?thesis by (rule assms(5))
  next
    case (cascade c' n)
    show ?thesis
    proof (rule assms(6)[OF cascade])
      show "P (s[idx := c']) c'"
        using cascade "2.IH"(2)[of "s ! idx" "(c', n)" c' n "s[idx := c']"]
        by (simp add: not_le)
      show "Q s'' c v (Suc idx)" if "eliminate (s[idx := c']) c' = Inr s''" for s''
        using that cascade "2.IH"(3)[of "s ! idx" "(c', n)" c' n "s[idx := c']" s'']
        by (simp add: not_le)
    qed
  qed
qed

definition wf_cell :: "cell \<Rightarrow> bool" where
  "wf_cell c \<longleftrightarrow>
     possibilities c \<noteq> [] \<and> sorted_wrt (<) (possibilities c) \<and>
     (\<forall>x \<in> set (possibilities c). 0 < x)"

definition cell_shrinks :: "cell \<Rightarrow> cell \<Rightarrow> bool" where
  "cell_shrinks c c' \<longleftrightarrow>
     row c' = row c \<and> col c' = col c \<and> subgrid c' = subgrid c \<and>
     set (possibilities c') \<subseteq> set (possibilities c) \<and>
     (length (possibilities c) = 1 \<longrightarrow> possibilities c' = possibilities c) \<and>
     (distinct (possibilities c) \<longrightarrow> distinct (possibilities c')) \<and>
     (wf_cell c \<longrightarrow> wf_cell c')"

lemma cell_shrinks_refl: "cell_shrinks c c"
  by (simp add: cell_shrinks_def)

lemma cell_shrinks_trans: "cell_shrinks a b \<Longrightarrow> cell_shrinks b c \<Longrightarrow> cell_shrinks a c"
  by (auto simp: cell_shrinks_def)

lemma wf_cell_remove1:
  assumes "wf_cell c" and "possibilities c \<noteq> [v]"
  shows "wf_cell (c\<lparr>possibilities := remove1 v (possibilities c)\<rparr>)"
proof -
  from assms(1) have "sorted (possibilities c)" "distinct (possibilities c)"
    by (simp_all add: wf_cell_def strict_sorted_iff)
  then have "sorted_wrt (<) (remove1 v (possibilities c))"
    by (simp add: strict_sorted_iff sorted_remove1)
  moreover have "remove1 v (possibilities c) \<noteq> []"
    using assms by (cases "possibilities c") (auto simp: wf_cell_def split: if_splits)
  moreover have "\<forall>x \<in> set (remove1 v (possibilities c)). 0 < x"
    using assms(1) set_remove1_subset[of v "possibilities c"] by (auto simp: wf_cell_def)
  ultimately show ?thesis by (simp add: wf_cell_def)
qed

lemma cell_eliminate_shrinks:
  assumes "cell_eliminate c v = Inr (c', n)"
  shows "cell_shrinks c c'"
proof (cases "v \<in> set (possibilities c)")
  case False
  with assms have "c' = c" by (auto simp: cell_eliminate_def split: if_splits)
  then show ?thesis by (simp add: cell_shrinks_refl)
next
  case True
  with assms have ne: "possibilities c \<noteq> [v]"
    and c': "c' = c\<lparr>possibilities := remove1 v (possibilities c)\<rparr>"
    by (auto simp: cell_eliminate_def Let_def split: if_splits)
  have "length (possibilities c) = 1 \<Longrightarrow> False"
    using True ne by (cases "possibilities c") auto
  with c' wf_cell_remove1[OF _ ne] set_remove1_subset[of v "possibilities c"]
  show ?thesis
    by (auto simp: cell_shrinks_def)
qed

definition shrinks :: "sudoku \<Rightarrow> sudoku \<Rightarrow> bool" where
  "shrinks s s' \<longleftrightarrow> list_all2 cell_shrinks s s'"

lemma shrinks_refl: "shrinks s s"
  by (simp add: shrinks_def list_all2_refl cell_shrinks_refl)

lemma shrinks_trans: "shrinks a b \<Longrightarrow> shrinks b c \<Longrightarrow> shrinks a c"
  unfolding shrinks_def by (rule list_all2_trans[OF cell_shrinks_trans])

lemma shrinks_update:
  "idx < length s \<Longrightarrow> cell_shrinks (s ! idx) c' \<Longrightarrow> shrinks s (s[idx := c'])"
  unfolding shrinks_def
  by (auto simp: list_all2_conv_all_nth nth_list_update cell_shrinks_refl)

lemma eliminate_shrinks:
  "eliminate s c = Inr r \<Longrightarrow> shrinks s r"
  "eliminate_loop s c v idx = Inr r \<Longrightarrow> shrinks s r"
proof (induction s c and s c v idx arbitrary: r and r rule: eliminate_induct)
  case (elim s c)
  then show ?case by (auto simp: eliminate_unfold shrinks_refl split: if_splits)
next
  case (fin s c v idx)
  then show ?case using eliminate_loop_cases(1)[of s idx c v] by (simp add: shrinks_refl)
next
  case (skip s c v idx)
  then show ?case using eliminate_loop_cases(2)[of idx s c v] by simp
next
  case (clash s c v idx e)
  then show ?case using eliminate_loop_cases(3)[of idx s c v e] by simp
next
  case (quiet s c v idx c')
  from quiet.prems eliminate_loop_cases(4)[OF quiet.hyps]
  have "eliminate_loop (s[idx := c']) c v (Suc idx) = Inr r" by simp
  then have "shrinks (s[idx := c']) r" by (rule quiet.IH)
  with shrinks_update[OF quiet.hyps(1) cell_eliminate_shrinks[OF quiet.hyps(4)]]
  show ?case by (rule shrinks_trans)
next
  case (cascade s c v idx c' n)
  from cascade.prems eliminate_loop_cases(5)[OF cascade.hyps] obtain s'' where
    inner: "eliminate (s[idx := c']) c' = Inr s''" and
    outer: "eliminate_loop s'' c v (Suc idx) = Inr r"
    by (auto split: sum.splits)
  from shrinks_update[OF cascade.hyps(1) cell_eliminate_shrinks[OF cascade.hyps(4)]]
    cascade.IH(1)[OF inner] cascade.IH(2)[OF inner outer]
  show ?case by (blast intro: shrinks_trans)
qed


lemma shrinksD:
  assumes "shrinks s r"
  shows "length r = length s"
    and "i < length s \<Longrightarrow> cell_shrinks (s ! i) (r ! i)"
  using assms by (auto simp: shrinks_def list_all2_conv_all_nth)

lemma eliminate_length:
  "eliminate s c = Inr r \<Longrightarrow> length r = length s"
  "eliminate_loop s c v idx = Inr r \<Longrightarrow> length r = length s"
  by (auto dest!: eliminate_shrinks shrinksD(1))

lemma eliminate_error:
  "eliminate s c = Inl e \<Longrightarrow> e = ClashException"
  "eliminate_loop s c v idx = Inl e \<Longrightarrow> e = ClashException"
proof (induction s c and s c v idx rule: eliminate_induct)
  case (elim s c)
  then show ?case by (auto simp: eliminate_unfold split: if_splits)
next
  case (fin s c v idx)
  then show ?case using eliminate_loop_cases(1)[of s idx c v] by simp
next
  case (skip s c v idx)
  then show ?case using eliminate_loop_cases(2)[of idx s c v] by simp
next
  case (clash s c v idx e')
  then show ?case using eliminate_loop_cases(3)[of idx s c v e']
    by (auto simp: cell_eliminate_def Let_def split: if_splits)
next
  case (quiet s c v idx c')
  with eliminate_loop_cases(4)[OF quiet.hyps] show ?case by simp
next
  case (cascade s c v idx c' n)
  with eliminate_loop_cases(5)[OF cascade.hyps] show ?case
    by (auto split: sum.splits)
qed

definition conflicts :: "cell \<Rightarrow> cell \<Rightarrow> bool" where
  "conflicts c other \<longleftrightarrow> \<not> cell_eq c other \<and> matches c other"

definition cleared :: "cell \<Rightarrow> int \<Rightarrow> sudoku \<Rightarrow> nat \<Rightarrow> bool" where
  "cleared c v s idx \<longleftrightarrow>
     (\<forall>j. idx \<le> j \<and> j < length s \<and> conflicts c (s ! j) \<longrightarrow> v \<notin> set (possibilities (s ! j)))"

definition discharged :: "sudoku \<Rightarrow> nat \<Rightarrow> bool" where
  "discharged s i \<longleftrightarrow>
     (cell_value (s ! i) \<noteq> 0 \<longrightarrow> cleared (s ! i) (cell_value (s ! i)) s 0)"

definition all_distinct :: "sudoku \<Rightarrow> bool" where
  "all_distinct s \<longleftrightarrow> (\<forall>c \<in> set s. distinct (possibilities c))"

lemma conflicts_shrinks:
  "cell_shrinks d d' \<Longrightarrow> conflicts c d' = conflicts c d"
  by (simp add: conflicts_def cell_shrinks_def cell_eq_def matches_def)

lemma conflicts_shrinks_left:
  "cell_shrinks c c' \<Longrightarrow> conflicts c' d = conflicts c d"
  by (simp add: conflicts_def cell_shrinks_def cell_eq_def matches_def)

lemma all_distinct_shrinks:
  assumes "shrinks s r" and "all_distinct s"
  shows "all_distinct r"
  unfolding all_distinct_def
proof
  fix c assume "c \<in> set r"
  then obtain i where i: "i < length r" "c = r ! i" by (auto simp: in_set_conv_nth)
  with shrinksD[OF assms(1)] have "cell_shrinks (s ! i) c" "i < length s" by auto
  with assms(2) show "distinct (possibilities c)"
    by (auto simp: all_distinct_def cell_shrinks_def)
qed

lemma cleared_step:
  assumes "cleared c v s (Suc idx)"
    and "idx < length s \<Longrightarrow> conflicts c (s ! idx) \<Longrightarrow> v \<notin> set (possibilities (s ! idx))"
  shows "cleared c v s idx"
  unfolding cleared_def
proof (intro allI impI)
  fix j assume j: "idx \<le> j \<and> j < length s \<and> conflicts c (s ! j)"
  show "v \<notin> set (possibilities (s ! j))"
  proof (cases "j = idx")
    case True
    with j assms(2) show ?thesis by simp
  next
    case False
    with j assms(1) show ?thesis by (auto simp: cleared_def)
  qed
qed

lemma cell_eliminate_removes:
  "cell_eliminate d v = Inr (d', n) \<Longrightarrow> distinct (possibilities d) \<Longrightarrow>
   v \<notin> set (possibilities d')"
  by (auto simp: cell_eliminate_def Let_def split: if_splits)

lemma shrinks_notin:
  "shrinks s r \<Longrightarrow> i < length s \<Longrightarrow> v \<notin> set (possibilities (s ! i)) \<Longrightarrow>
   v \<notin> set (possibilities (r ! i))"
  by (auto dest!: shrinksD(2) simp: cell_shrinks_def)

lemma eliminate_cleared:
  "eliminate s c = Inr r \<Longrightarrow> all_distinct s \<Longrightarrow> cell_value c \<noteq> 0 \<Longrightarrow>
   cleared c (cell_value c) r 0"
  "eliminate_loop s c v idx = Inr r \<Longrightarrow> all_distinct s \<Longrightarrow> cleared c v r idx"
proof (induction s c and s c v idx arbitrary: r and r rule: eliminate_induct)
  case (elim s c)
  then show ?case by (simp add: eliminate_unfold)
next
  case (fin s c v idx)
  then show ?case using eliminate_loop_cases(1)[of s idx c v] by (auto simp: cleared_def)
next
  case (skip s c v idx)
  from skip.prems eliminate_loop_cases(2)[OF skip.hyps]
  have run: "eliminate_loop s c v (Suc idx) = Inr r" by simp
  from skip.IH[OF run skip.prems(2)] have "cleared c v r (Suc idx)" .
  moreover have "\<not> conflicts c (r ! idx)"
    using conflicts_shrinks[OF shrinksD(2)[OF eliminate_shrinks(2)[OF run] skip.hyps(1)], of c]
      skip.hyps(2)
    by (auto simp: conflicts_def)
  ultimately show ?case by (auto intro: cleared_step)
next
  case (clash s c v idx e)
  then show ?case using eliminate_loop_cases(3)[of idx s c v e] by simp
next
  case (quiet s c v idx c')
  let ?s1 = "s[idx := c']"
  from quiet.prems eliminate_loop_cases(4)[OF quiet.hyps]
  have run: "eliminate_loop ?s1 c v (Suc idx) = Inr r" by simp
  have sh: "shrinks s ?s1"
    by (rule shrinks_update[OF quiet.hyps(1) cell_eliminate_shrinks[OF quiet.hyps(4)]])
  have d1: "all_distinct ?s1" by (rule all_distinct_shrinks[OF sh quiet.prems(2)])
  from quiet.IH[OF run d1] have "cleared c v r (Suc idx)" .
  moreover have "v \<notin> set (possibilities (?s1 ! idx))"
    using cell_eliminate_removes[OF quiet.hyps(4)] quiet.prems(2) quiet.hyps(1)
    by (auto simp: all_distinct_def)
  then have "v \<notin> set (possibilities (r ! idx))"
    using shrinks_notin[OF eliminate_shrinks(2)[OF run], of idx v] quiet.hyps(1) by simp
  ultimately show ?case by (auto intro: cleared_step)
next
  case (cascade s c v idx c' n)
  let ?s1 = "s[idx := c']"
  from cascade.prems eliminate_loop_cases(5)[OF cascade.hyps] obtain s'' where
    inner: "eliminate ?s1 c' = Inr s''" and
    outer: "eliminate_loop s'' c v (Suc idx) = Inr r"
    by (auto split: sum.splits)
  have sh: "shrinks s ?s1"
    by (rule shrinks_update[OF cascade.hyps(1) cell_eliminate_shrinks[OF cascade.hyps(4)]])
  have d1: "all_distinct ?s1" by (rule all_distinct_shrinks[OF sh cascade.prems(2)])
  have d2: "all_distinct s''" by (rule all_distinct_shrinks[OF eliminate_shrinks(1)[OF inner] d1])
  from cascade.IH(2)[OF inner outer d2] have "cleared c v r (Suc idx)" .
  moreover have "v \<notin> set (possibilities (?s1 ! idx))"
    using cell_eliminate_removes[OF cascade.hyps(4)] cascade.prems(2) cascade.hyps(1)
    by (auto simp: all_distinct_def)
  then have "v \<notin> set (possibilities (s'' ! idx))"
    using shrinks_notin[OF eliminate_shrinks(1)[OF inner], of idx v] cascade.hyps(1) by simp
  then have "v \<notin> set (possibilities (r ! idx))"
    using shrinks_notin[OF eliminate_shrinks(2)[OF outer], of idx v] cascade.hyps(1)
      eliminate_length(1)[OF inner] by simp
  ultimately show ?case by (auto intro: cleared_step)
qed


lemma cell_value_shrinks:
  "cell_shrinks c c' \<Longrightarrow> cell_value c \<noteq> 0 \<Longrightarrow> possibilities c' = possibilities c"
  by (auto simp: cell_shrinks_def cell_value_def split: if_splits)

lemma discharged_shrinks:
  assumes "shrinks s r" and "i < length s" and "cell_value (s ! i) \<noteq> 0" and "discharged s i"
  shows "discharged r i"
proof -
  note sh = shrinksD[OF assms(1)]
  have same: "possibilities (r ! i) = possibilities (s ! i)"
    by (rule cell_value_shrinks[OF sh(2)[OF assms(2)] assms(3)])
  then have val: "cell_value (r ! i) = cell_value (s ! i)" by (simp add: cell_value_def)
  from assms(3,4) have cl: "cleared (s ! i) (cell_value (s ! i)) s 0"
    by (simp add: discharged_def)
  have "cleared (r ! i) (cell_value (s ! i)) r 0"
    unfolding cleared_def
  proof (intro allI impI)
    fix j assume j: "0 \<le> j \<and> j < length r \<and> conflicts (r ! i) (r ! j)"
    with sh have jl: "j < length s" by simp
    from j have "conflicts (s ! i) (s ! j)"
      using conflicts_shrinks[OF sh(2)[OF jl], of "r ! i"]
        conflicts_shrinks_left[OF sh(2)[OF assms(2)], of "s ! j"] by simp
    with cl jl have "cell_value (s ! i) \<notin> set (possibilities (s ! j))"
      by (auto simp: cleared_def)
    then show "cell_value (s ! i) \<notin> set (possibilities (r ! j))"
      by (rule shrinks_notin[OF assms(1) jl])
  qed
  with val show ?thesis by (simp add: discharged_def)
qed

lemma discharged_update:
  assumes "idx < length s" and "cell_shrinks (s ! idx) c'" and "i < length s" and "i \<noteq> idx"
    and "discharged s i"
  shows "discharged (s[idx := c']) i"
proof (cases "cell_value (s ! i) = 0")
  case True
  with assms show ?thesis by (simp add: discharged_def)
next
  case False
  from shrinks_update[OF assms(1,2)] assms(3) False assms(5) show ?thesis
    by (rule discharged_shrinks)
qed

lemma eliminate_discharged:
  "eliminate s c = Inr r \<Longrightarrow> all_distinct s \<Longrightarrow> i < length s \<Longrightarrow> discharged s i \<Longrightarrow>
   discharged r i"
  "eliminate_loop s c v idx = Inr r \<Longrightarrow> all_distinct s \<Longrightarrow> i < length s \<Longrightarrow>
   discharged s i \<Longrightarrow> discharged r i"
proof (induction s c and s c v idx arbitrary: r i and r i rule: eliminate_induct)
  case (elim s c)
  then show ?case by (auto simp: eliminate_unfold split: if_splits)
next
  case (fin s c v idx)
  then show ?case using eliminate_loop_cases(1)[of s idx c v] by simp
next
  case (skip s c v idx)
  from skip.prems eliminate_loop_cases(2)[OF skip.hyps]
  have run: "eliminate_loop s c v (Suc idx) = Inr r" by simp
  from skip.IH[OF run skip.prems(2,3,4)] show ?case .
next
  case (clash s c v idx e)
  then show ?case using eliminate_loop_cases(3)[of idx s c v e] by simp
next
  case (quiet s c v idx c')
  let ?s1 = "s[idx := c']"
  from quiet.prems eliminate_loop_cases(4)[OF quiet.hyps]
  have run: "eliminate_loop ?s1 c v (Suc idx) = Inr r" by simp
  note cs = cell_eliminate_shrinks[OF quiet.hyps(4)]
  have sh: "shrinks s ?s1" by (rule shrinks_update[OF quiet.hyps(1) cs])
  have d1: "all_distinct ?s1" by (rule all_distinct_shrinks[OF sh quiet.prems(2)])
  have "discharged ?s1 i"
  proof (cases "i = idx")
    case False
    from discharged_update[OF quiet.hyps(1) cs quiet.prems(3) False quiet.prems(4)]
    show ?thesis .
  next
    case True
    show ?thesis
    proof (cases "v \<in> set (possibilities (s ! idx))")
      case False
      with quiet.hyps(4) have "c' = s ! idx"
        by (auto simp: cell_eliminate_def split: if_splits)
      with quiet.prems(4) show ?thesis by simp
    next
      case mem: True
      with quiet.hyps(4) have "cell_value c' = 0"
        by (auto simp: cell_eliminate_def Let_def split: if_splits)
      with True quiet.hyps(1) show ?thesis by (simp add: discharged_def)
    qed
  qed
  with quiet.IH[OF run d1, of i] quiet.prems(3) show ?case by simp
next
  case (cascade s c v idx c' n)
  let ?s1 = "s[idx := c']"
  from cascade.prems eliminate_loop_cases(5)[OF cascade.hyps] obtain s'' where
    inner: "eliminate ?s1 c' = Inr s''" and
    outer: "eliminate_loop s'' c v (Suc idx) = Inr r"
    by (auto split: sum.splits)
  note cs = cell_eliminate_shrinks[OF cascade.hyps(4)]
  have sh: "shrinks s ?s1" by (rule shrinks_update[OF cascade.hyps(1) cs])
  have d1: "all_distinct ?s1" by (rule all_distinct_shrinks[OF sh cascade.prems(2)])
  note sh2 = eliminate_shrinks(1)[OF inner]
  have d2: "all_distinct s''" by (rule all_distinct_shrinks[OF sh2 d1])
  have len2: "length s'' = length s" using eliminate_length(1)[OF inner] by simp
  have val: "cell_value c' = n" and n: "n \<noteq> 0"
    using cascade.hyps(4,5) by (auto simp: cell_eliminate_def Let_def split: if_splits)
  have "discharged s'' i"
  proof (cases "i = idx")
    case False
    from discharged_update[OF cascade.hyps(1) cs cascade.prems(3) False cascade.prems(4)]
    have "discharged ?s1 i" .
    with cascade.IH(1)[OF inner d1, of i] cascade.prems(3) show ?thesis by simp
  next
    case True
    from eliminate_cleared(1)[OF inner d1] val n
    have cl: "cleared c' n s'' 0" by simp
    have ps: "possibilities (s'' ! idx) = possibilities c'"
      using cell_value_shrinks[OF shrinksD(2)[OF sh2, of idx]] cascade.hyps(1) val n by simp
    have cf: "conflicts (s'' ! idx) d = conflicts c' d" for d
      using conflicts_shrinks_left[OF shrinksD(2)[OF sh2, of idx], of d] cascade.hyps(1) by simp
    have "cell_value (s'' ! idx) = cell_value c'"
      unfolding cell_value_def ps ..
    with val have "cell_value (s'' ! idx) = n" by simp
    with cf cl True show ?thesis by (simp add: discharged_def cleared_def)
  qed
  with cascade.IH(2)[OF inner outer d2, of i] cascade.prems(3) len2 show ?case by simp
qed

subsection \<open>One step of the search: \<open>Sudoku._easy_step\<close>\<close>

text \<open>
  The loop \<open>for cell in self.cells\<close> of \<open>_easy_step\<close> walks over the tuple by position and
  reads each cell as it is when the loop reaches it.
\<close>

function easy_step_loop :: "sudoku \<Rightarrow> nat \<Rightarrow> error + sudoku" where
  "easy_step_loop s i =
     (if length s \<le> i then Inr s
      else
        let cell = s ! i in
        if cell_value cell \<noteq> 0 then
          (case eliminate s cell of
             Inl e \<Rightarrow> Inl e
           | Inr s' \<Rightarrow> easy_step_loop s' (Suc i))
        else easy_step_loop s (Suc i))"
  by pat_completeness auto

termination easy_step_loop
  by (relation "measure (\<lambda>(s, i). length s - i)") (auto simp: eliminate_length(1))

declare easy_step_loop.simps [simp del]

text \<open>
  The list comprehension of \<open>_easy_step\<close> and the builtin \<open>min\<close> with the key
  \<open>(len(x[1]), x[0])\<close>.  Tuples compare lexicographically; \<open>min\<close> keeps the first of
  several smallest items and raises \<open>ValueError\<close> on an empty list.
\<close>

definition branch_candidates :: "sudoku \<Rightarrow> (nat \<times> int list) list" where
  "branch_candidates s =
     map (\<lambda>(cell_idx, cell). (cell_idx, possibilities cell))
       (filter (\<lambda>(cell_idx, cell). 1 < length (possibilities cell)) (enumerate 0 s))"

definition key :: "nat \<times> int list \<Rightarrow> nat \<times> nat" where
  "key x = (length (snd x), fst x)"

definition tuple_less :: "nat \<times> nat \<Rightarrow> nat \<times> nat \<Rightarrow> bool" where
  "tuple_less a b \<longleftrightarrow> fst a < fst b \<or> (fst a = fst b \<and> snd a < snd b)"

fun min_loop :: "nat \<times> int list \<Rightarrow> (nat \<times> int list) list \<Rightarrow> nat \<times> int list" where
  "min_loop best [] = best"
| "min_loop best (x # xs) = min_loop (if tuple_less (key x) (key best) then x else best) xs"

definition py_min :: "(nat \<times> int list) list \<Rightarrow> error + (nat \<times> int list)" where
  "py_min xs = (case xs of [] \<Rightarrow> Inl ValueError | x # rest \<Rightarrow> Inr (min_loop x rest))"

text \<open>
  \<open>_easy_step\<close> changes the puzzle in place and returns \<open>None\<close> or the branch cell with
  its candidates; the model returns the changed puzzle with that result.
\<close>

definition easy_step :: "sudoku \<Rightarrow> error + (sudoku \<times> (nat \<times> int list) option)" where
  "easy_step s =
     (if is_solved s then Inr (s, None)
      else
        case easy_step_loop s 0 of
          Inl e \<Rightarrow> Inl e
        | Inr s' \<Rightarrow>
            if \<not> is_solved s' then
              (case py_min (branch_candidates s') of
                 Inl e \<Rightarrow> Inl e
               | Inr m \<Rightarrow> Inr (s', Some m))
            else Inr (s', None))"

subsection \<open>The search: \<open>Sudoku.solve\<close>\<close>

text \<open>
  \<open>new_sudoku2.cells[cell_idx].value = possibility\<close>: indexing the tuple out of range
  raises \<open>IndexError\<close>, the setter raises \<open>ClashException\<close>.
\<close>

definition assign :: "sudoku \<Rightarrow> nat \<Rightarrow> int \<Rightarrow> error + sudoku" where
  "assign s cell_idx val =
     (if length s \<le> cell_idx then Inl IndexError
      else
        case set_value (s ! cell_idx) val of
          Inl e \<Rightarrow> Inl e
        | Inr c \<Rightarrow> Inr (s[cell_idx := c]))"

text \<open>
  \<open>solve\<close> works on a deep copy of the puzzle, and every candidate is tried on a deep
  copy of the propagated puzzle; here puzzles are values, so a copy is the value itself.
  \<open>solve_loop\<close> is the loop over the candidates: the assignment stands outside the
  \<open>try\<close>, and only \<open>ClashException\<close> is caught.  No callback is passed.
\<close>

function solve :: "sudoku \<Rightarrow> error + sudoku"
  and solve_loop :: "sudoku \<Rightarrow> nat \<Rightarrow> int list \<Rightarrow> error + sudoku"
where
  "solve s =
     (case easy_step s of
        Inl e \<Rightarrow> Inl e
      | Inr (new_sudoku, ret_val) \<Rightarrow>
          (case ret_val of
             None \<Rightarrow> Inr new_sudoku
           | Some (cell_idx, poss) \<Rightarrow> solve_loop new_sudoku cell_idx poss))"
| "solve_loop new_sudoku cell_idx [] = Inl ClashException"
| "solve_loop new_sudoku cell_idx (possibility # rest) =
     (case assign new_sudoku cell_idx possibility of
        Inl e \<Rightarrow> Inl e
      | Inr new_sudoku2 \<Rightarrow>
          (case solve new_sudoku2 of
             Inr solved \<Rightarrow> Inr solved
           | Inl e \<Rightarrow>
               if e = ClashException then solve_loop new_sudoku cell_idx rest
               else Inl e))"
  by pat_completeness auto

lemma eliminate_total:
  "eliminate s c = Inr r \<Longrightarrow> total r \<le> total s"
  using eliminate_total_partial(1)[of s c r] eliminate_dom_total by simp

lemma easy_step_loop_induct [case_names fin skip clash step]:
  assumes "\<And>s i. length s \<le> i \<Longrightarrow> P s i"
    and "\<And>s i. i < length s \<Longrightarrow> cell_value (s ! i) = 0 \<Longrightarrow> P s (Suc i) \<Longrightarrow> P s i"
    and "\<And>s i e. i < length s \<Longrightarrow> cell_value (s ! i) \<noteq> 0 \<Longrightarrow>
           eliminate s (s ! i) = Inl e \<Longrightarrow> P s i"
    and "\<And>s i s'. i < length s \<Longrightarrow> cell_value (s ! i) \<noteq> 0 \<Longrightarrow>
           eliminate s (s ! i) = Inr s' \<Longrightarrow> P s' (Suc i) \<Longrightarrow> P s i"
  shows "P s i"
proof (induction s i rule: easy_step_loop.induct)
  case (1 s i)
  show ?case
  proof (cases "length s \<le> i")
    case True
    then show ?thesis by (rule assms(1))
  next
    case False
    then have lt: "i < length s" by simp
    show ?thesis
    proof (cases "cell_value (s ! i) = 0")
      case True
      with lt "1.IH"(2) have "P s (Suc i)" by simp
      with lt True show ?thesis by (rule assms(2))
    next
      case nz: False
      show ?thesis
      proof (cases "eliminate s (s ! i)")
        case (Inl e)
        with lt nz show ?thesis by (rule assms(3))
      next
        case (Inr s')
        with lt nz "1.IH"(1) have "P s' (Suc i)" by simp
        with lt nz Inr show ?thesis by (rule assms(4))
      qed
    qed
  qed
qed

lemma easy_step_loop_cases:
  shows "length s \<le> i \<Longrightarrow> easy_step_loop s i = Inr s"
    and "i < length s \<Longrightarrow> cell_value (s ! i) = 0 \<Longrightarrow>
         easy_step_loop s i = easy_step_loop s (Suc i)"
    and "i < length s \<Longrightarrow> cell_value (s ! i) \<noteq> 0 \<Longrightarrow> eliminate s (s ! i) = Inl e \<Longrightarrow>
         easy_step_loop s i = Inl e"
    and "i < length s \<Longrightarrow> cell_value (s ! i) \<noteq> 0 \<Longrightarrow> eliminate s (s ! i) = Inr s' \<Longrightarrow>
         easy_step_loop s i = easy_step_loop s' (Suc i)"
  by (subst easy_step_loop.simps, simp)+

lemma easy_step_loop_shrinks:
  "easy_step_loop s i = Inr r \<Longrightarrow> shrinks s r \<and> total r \<le> total s"
proof (induction s i rule: easy_step_loop_induct)
  case (fin s i)
  then show ?case by (simp add: easy_step_loop_cases(1) shrinks_refl)
next
  case (skip s i)
  then show ?case by (simp add: easy_step_loop_cases(2))
next
  case (clash s i e)
  then show ?case by (simp add: easy_step_loop_cases(3))
next
  case (step s i s')
  from step.prems step.hyps have "easy_step_loop s' (Suc i) = Inr r"
    by (simp add: easy_step_loop_cases(4))
  with step.IH have "shrinks s' r \<and> total r \<le> total s'" by simp
  with eliminate_shrinks(1)[OF step.hyps(3)] eliminate_total[OF step.hyps(3)]
  show ?case by (auto intro: shrinks_trans)
qed

lemma min_loop_in: "min_loop best xs \<in> set (best # xs)"
  by (induction xs arbitrary: best) (auto split: if_splits)

lemma py_min_in: "py_min xs = Inr m \<Longrightarrow> m \<in> set xs"
  using min_loop_in by (auto simp: py_min_def split: list.splits)

lemma branch_candidates_iff:
  "(idx, ps) \<in> set (branch_candidates s) \<longleftrightarrow>
     idx < length s \<and> ps = possibilities (s ! idx) \<and> 1 < length ps"
  by (auto simp: branch_candidates_def in_set_enumerate_eq image_iff)

lemma easy_step_Some:
  assumes "easy_step s = Inr (new, Some (idx, ps))"
  shows "shrinks s new" and "total new \<le> total s" and "idx < length new"
    and "ps = possibilities (new ! idx)" and "1 < length ps"
    and "\<not> is_solved s" and "\<not> is_solved new" and "easy_step_loop s 0 = Inr new"
    and "py_min (branch_candidates new) = Inr (idx, ps)"
proof -
  from assms have ns: "\<not> is_solved s" by (auto simp: easy_step_def split: if_splits)
  with assms have run: "easy_step_loop s 0 = Inr new" and ns': "\<not> is_solved new"
    and m: "py_min (branch_candidates new) = Inr (idx, ps)"
    by (auto simp: easy_step_def split: if_splits sum.splits)
  from py_min_in[OF m] have "idx < length new \<and> ps = possibilities (new ! idx) \<and> 1 < length ps"
    unfolding branch_candidates_iff .
  with easy_step_loop_shrinks[OF run] ns ns' run m
  show "shrinks s new" and "total new \<le> total s" and "idx < length new"
    and "ps = possibilities (new ! idx)" and "1 < length ps"
    and "\<not> is_solved s" and "\<not> is_solved new" and "easy_step_loop s 0 = Inr new"
    and "py_min (branch_candidates new) = Inr (idx, ps)"
    by auto
qed

lemma total_nth_le: "i < length s \<Longrightarrow> length (possibilities (s ! i)) \<le> total s"
  unfolding total_def
  by (induction s arbitrary: i) (auto simp: nth_Cons split: nat.splits intro: trans_le_add2)

lemma assign_Inr:
  assumes "assign s idx p = Inr r"
  shows "idx < length s" and "p \<in> set (possibilities (s ! idx))"
    and "r = s[idx := (s ! idx)\<lparr>possibilities := [p]\<rparr>]"
  using assms by (auto simp: assign_def set_value_def split: if_splits)

lemma assign_total:
  assumes "assign s idx p = Inr r"
  shows "total r = total s + 1 - length (possibilities (s ! idx))"
  using total_update[OF assign_Inr(1)[OF assms], of "(s ! idx)\<lparr>possibilities := [p]\<rparr>"]
    assign_Inr(3)[OF assms]
  by simp

definition solve_rank :: "sudoku + (sudoku \<times> nat \<times> int list) \<Rightarrow> nat \<times> nat" where
  "solve_rank x =
     (case x of
        Inl s \<Rightarrow> (total s, 0)
      | Inr (s, cell_idx, poss) \<Rightarrow>
          (if cell_idx < length s then total s + 1 - length (possibilities (s ! cell_idx)) else 0,
           1 + length poss))"

lemma solve_dom_total: "All solve_solve_loop_dom"
proof (rule "solve_solve_loop.termination"
    [where R = "inv_image (less_than <*lex*> less_than) solve_rank"], goal_cases)
  case 1
  show ?case by (intro wf_inv_image wf_lex_prod wf_less_than)
next
  case (2 s x2 x y x2a xa ya)
  then have es: "easy_step s = Inr (x, Some (xa, ya))" by simp
  from easy_step_Some(2,3,4,5)[OF es] total_nth_le[of xa x]
  show ?case by (auto simp: solve_rank_def)
next
  case (3 new_sudoku cell_idx possibility rest x2)
  from assign_total[OF 3] assign_Inr(1)[OF 3] show ?case
    by (simp add: solve_rank_def)
next
  case (4 new_sudoku cell_idx possibility rest x2 x1)
  then show ?case by (simp add: solve_rank_def)
qed

termination solve
  by (rule solve_dom_total)

declare solve.simps [simp del]

subsection \<open>Invariants of the search\<close>

text \<open>
  \<open>well_formed\<close> is what \<open>Sudoku.__init__\<close> establishes and every step of the search
  keeps: no cell is without candidates, the candidates of a cell are positive and
  strictly ascending, and no two cells have the same coordinates.  A puzzle is
  \<open>propagated\<close> when the value of every determined cell is gone from the candidates of
  all cells in its row, column and block, and \<open>consistent\<close> when no determined cell
  shares its value with another cell of its row, column or block.
\<close>

definition uniq_coords :: "sudoku \<Rightarrow> bool" where
  "uniq_coords s \<longleftrightarrow> (\<forall>i<length s. \<forall>j<length s. cell_eq (s ! i) (s ! j) \<longrightarrow> i = j)"

definition well_formed :: "sudoku \<Rightarrow> bool" where
  "well_formed s \<longleftrightarrow> (\<forall>c \<in> set s. wf_cell c) \<and> uniq_coords s"

definition consistent :: "sudoku \<Rightarrow> bool" where
  "consistent s \<longleftrightarrow>
     (\<forall>i<length s. \<forall>j<length s.
        i \<noteq> j \<and> matches (s ! i) (s ! j) \<and> cell_value (s ! i) \<noteq> 0 \<longrightarrow>
        cell_value (s ! i) \<noteq> cell_value (s ! j))"

definition propagated :: "sudoku \<Rightarrow> bool" where
  "propagated s \<longleftrightarrow> (\<forall>k<length s. discharged s k)"

lemma well_formed_distinct: "well_formed s \<Longrightarrow> all_distinct s"
  by (auto simp: well_formed_def all_distinct_def wf_cell_def strict_sorted_iff)

lemma well_formed_shrinks:
  assumes "shrinks s r" and "well_formed s"
  shows "well_formed r"
proof -
  note sh = shrinksD[OF assms(1)]
  have "wf_cell c" if "c \<in> set r" for c
  proof -
    from that obtain i where i: "i < length r" "c = r ! i" by (auto simp: in_set_conv_nth)
    with sh have "cell_shrinks (s ! i) c" "i < length s" by auto
    with assms(2) show ?thesis by (auto simp: well_formed_def cell_shrinks_def)
  qed
  moreover have "uniq_coords r"
    unfolding uniq_coords_def
  proof (intro allI impI)
    fix i j assume ij: "i < length r" "j < length r" "cell_eq (r ! i) (r ! j)"
    with sh(1) sh(2)[of i] sh(2)[of j] have "cell_eq (s ! i) (s ! j)"
      by (simp add: cell_eq_def cell_shrinks_def)
    with assms(2) ij sh(1) show "i = j" by (simp add: well_formed_def uniq_coords_def)
  qed
  ultimately show ?thesis by (simp add: well_formed_def)
qed

lemma well_formed_assign:
  assumes "assign s idx p = Inr r" and "well_formed s"
  shows "well_formed r"
proof -
  note a = assign_Inr[OF assms(1)]
  have "cell_shrinks (s ! idx) ((s ! idx)\<lparr>possibilities := [p]\<rparr>)"
    using a(1,2) assms(2)
    by (auto simp: cell_shrinks_def wf_cell_def well_formed_def) (cases "possibilities (s ! idx)", auto)
  from shrinks_update[OF a(1) this] a(3) assms(2) show ?thesis
    by (auto intro: well_formed_shrinks)
qed

lemma eliminate_discharges_self:
  assumes "eliminate s (s ! i) = Inr r" and "all_distinct s" and "i < length s"
    and "cell_value (s ! i) \<noteq> 0"
  shows "discharged r i"
proof -
  note sh = shrinksD(2)[OF eliminate_shrinks(1)[OF assms(1)] assms(3)]
  have ps: "possibilities (r ! i) = possibilities (s ! i)"
    by (rule cell_value_shrinks[OF sh assms(4)])
  have "cell_value (r ! i) = cell_value (s ! i)"
    unfolding cell_value_def ps ..
  moreover have "conflicts (r ! i) d = conflicts (s ! i) d" for d
    by (rule conflicts_shrinks_left[OF sh])
  ultimately show ?thesis
    using eliminate_cleared(1)[OF assms(1,2,4)]
    by (simp add: discharged_def cleared_def)
qed

lemma easy_step_loop_discharged:
  "easy_step_loop s i = Inr r \<Longrightarrow> all_distinct s \<Longrightarrow>
   (\<forall>k<i. k < length s \<longrightarrow> discharged s k) \<Longrightarrow> propagated r"
proof (induction s i rule: easy_step_loop_induct)
  case (fin s i)
  then show ?case by (simp add: easy_step_loop_cases(1) propagated_def)
next
  case (skip s i)
  from skip.hyps(2) have "discharged s i" by (simp add: discharged_def)
  with skip.prems(3) have "\<forall>k<Suc i. k < length s \<longrightarrow> discharged s k"
    by (auto simp: less_Suc_eq)
  with skip show ?case by (simp add: easy_step_loop_cases(2))
next
  case (clash s i e)
  then show ?case by (simp add: easy_step_loop_cases(3))
next
  case (step s i s')
  from step.prems step.hyps have run: "easy_step_loop s' (Suc i) = Inr r"
    by (simp add: easy_step_loop_cases(4))
  have d': "all_distinct s'"
    by (rule all_distinct_shrinks[OF eliminate_shrinks(1)[OF step.hyps(3)] step.prems(2)])
  have len: "length s' = length s" by (rule eliminate_length(1)[OF step.hyps(3)])
  have "discharged s' k" if "k < Suc i" "k < length s'" for k
  proof (cases "k = i")
    case True
    with eliminate_discharges_self[OF step.hyps(3) step.prems(2) step.hyps(1,2)]
    show ?thesis by simp
  next
    case False
    with that step.prems(3) len have "discharged s k" by (simp add: less_Suc_eq)
    with eliminate_discharged(1)[OF step.hyps(3) step.prems(2), of k] that len
    show ?thesis by simp
  qed
  with step.IH[OF run d'] show ?case by simp
qed

lemma matches_sym: "matches c d = matches d c"
  by (auto simp: matches_def)

lemma cell_eq_sym: "cell_eq c d = cell_eq d c"
  by (auto simp: cell_eq_def)

lemma cell_value_poss:
  "cell_value c \<noteq> 0 \<Longrightarrow> possibilities c = [cell_value c]"
  by (cases "possibilities c") (auto simp: cell_value_def split: if_splits)

lemma propagated_notin:
  assumes "propagated s" and "uniq_coords s" and "i < length s" and "j < length s" and "i \<noteq> j"
    and "matches (s ! i) (s ! j)" and "cell_value (s ! i) \<noteq> 0"
  shows "cell_value (s ! i) \<notin> set (possibilities (s ! j))"
proof -
  from assms(2,3,4,5) have "\<not> cell_eq (s ! i) (s ! j)" by (auto simp: uniq_coords_def)
  with assms(6) have "conflicts (s ! i) (s ! j)" by (simp add: conflicts_def)
  with assms(1,3,4,7) show ?thesis by (auto simp: propagated_def discharged_def cleared_def)
qed

lemma propagated_consistent:
  assumes "propagated s" and "uniq_coords s"
  shows "consistent s"
  unfolding consistent_def
proof (intro allI impI)
  fix i j assume ij: "i < length s" "j < length s"
    and c: "i \<noteq> j \<and> matches (s ! i) (s ! j) \<and> cell_value (s ! i) \<noteq> 0"
  show "cell_value (s ! i) \<noteq> cell_value (s ! j)"
  proof
    assume eq: "cell_value (s ! i) = cell_value (s ! j)"
    with c have "cell_value (s ! j) \<noteq> 0" by simp
    from cell_value_poss[OF this] eq propagated_notin[OF assms ij, of] c
    show False by simp
  qed
qed

lemma assign_consistent:
  assumes "assign s idx p = Inr r" and "propagated s" and "uniq_coords s"
  shows "consistent r"
  unfolding consistent_def
proof (intro allI impI)
  note a = assign_Inr[OF assms(1)]
  fix i j assume ij: "i < length r" "j < length r"
    and c: "i \<noteq> j \<and> matches (r ! i) (r ! j) \<and> cell_value (r ! i) \<noteq> 0"
  from a(3) have len: "length r = length s" by simp
  have rc: "row (r ! k) = row (s ! k) \<and> col (r ! k) = col (s ! k) \<and>
            subgrid (r ! k) = subgrid (s ! k)" if "k < length s" for k
    using that a(3) by (cases "k = idx") simp_all
  have coords: "matches (r ! k) (r ! l) = matches (s ! k) (s ! l)"
    if "k < length s" "l < length s" for k l
    using rc[OF that(1)] rc[OF that(2)] by (simp add: matches_def)
  have other: "r ! k = s ! k" if "k \<noteq> idx" for k
    using that a(3) by simp
  have at: "possibilities (r ! idx) = [p]" using a(1,3) by simp
  then have vat: "cell_value (r ! idx) = p" by (simp add: cell_value_def)
  from ij len c coords have m: "matches (s ! i) (s ! j)" by simp
  show "cell_value (r ! i) \<noteq> cell_value (r ! j)"
  proof (cases "i = idx")
    case True
    with c have jn: "j \<noteq> idx" by simp
    show ?thesis
    proof (cases "cell_value (s ! j) = 0")
      case True
      with c other[OF jn] show ?thesis by simp
    next
      case False
      from propagated_notin[OF assms(2,3), of j i] ij len c m False \<open>i = idx\<close> a(2) vat other[OF jn]
      show ?thesis by (auto simp: matches_sym)
    qed
  next
    case inot: False
    show ?thesis
    proof (cases "j = idx")
      case True
      from propagated_notin[OF assms(2,3), of i j] ij len c m True a(2) vat other[OF inot]
      show ?thesis by auto
    next
      case False
      from propagated_consistent[OF assms(2,3)] ij len c m other[OF inot] other[OF False]
      show ?thesis by (auto simp: consistent_def)
    qed
  qed
qed


lemma solve_cases:
  shows "easy_step s = Inl e \<Longrightarrow> solve s = Inl e"
    and "easy_step s = Inr (new, None) \<Longrightarrow> solve s = Inr new"
    and "easy_step s = Inr (new, Some (idx, ps)) \<Longrightarrow> solve s = solve_loop new idx ps"
  by (simp_all add: solve.simps)

lemma easy_step_None:
  assumes "easy_step s = Inr (new, None)"
  shows "is_solved new"
    and "(is_solved s \<and> new = s) \<or> (\<not> is_solved s \<and> easy_step_loop s 0 = Inr new)"
  using assms by (auto simp: easy_step_def split: if_splits sum.splits)

lemma easy_step_well_formed:
  assumes "easy_step s = Inr (new, ret)" and "well_formed s"
  shows "well_formed new" and "\<not> is_solved s \<Longrightarrow> propagated new"
proof -
  have *: "well_formed new \<and> (\<not> is_solved s \<longrightarrow> propagated new)"
  proof (cases "is_solved s")
    case True
    with assms show ?thesis by (auto simp: easy_step_def)
  next
    case False
    with assms(1) have run: "easy_step_loop s 0 = Inr new"
      by (auto simp: easy_step_def split: if_splits sum.splits)
    from easy_step_loop_shrinks[OF run] assms(2) have "well_formed new"
      by (auto intro: well_formed_shrinks)
    moreover from easy_step_loop_discharged[OF run well_formed_distinct[OF assms(2)]]
    have "propagated new" by simp
    ultimately show ?thesis by simp
  qed
  from * show "well_formed new" by simp
  from * show "\<not> is_solved s \<Longrightarrow> propagated new" by simp
qed

lemma solve_sound:
  "solve s = Inr r \<Longrightarrow> well_formed s \<Longrightarrow> (is_solved s \<longrightarrow> consistent s) \<Longrightarrow>
   is_solved r \<and> consistent r"
  "solve_loop new idx ps = Inr r \<Longrightarrow> well_formed new \<Longrightarrow> propagated new \<Longrightarrow>
   is_solved r \<and> consistent r"
proof (induction s and new idx ps arbitrary: r and r rule: solve_solve_loop.induct)
  case (1 s)
  show ?case
  proof (cases "easy_step s")
    case (Inl e)
    with "1.prems"(1) solve_cases(1)[OF Inl] show ?thesis by simp
  next
    case (Inr b)
    obtain new ret where b: "b = (new, ret)" by (cases b)
    note es = Inr[unfolded b]
    note wf = easy_step_well_formed[OF es "1.prems"(2)]
    show ?thesis
    proof (cases ret)
      case None
      from es None have esn: "easy_step s = Inr (new, None)" by simp
      from solve_cases(2)[OF esn] "1.prems"(1) have r: "r = new" by simp
      from easy_step_None[OF esn] show ?thesis
      proof (elim disjE conjE)
        assume "is_solved s" "new = s"
        with "1.prems"(3) r show ?thesis by simp
      next
        assume ns: "\<not> is_solved s"
        from propagated_consistent[OF wf(2)[OF ns]] wf(1) easy_step_None(1)[OF esn] r
        show ?thesis by (simp add: well_formed_def)
      qed
    next
      case (Some x2)
      obtain idx ps where x2: "x2 = (idx, ps)" by (cases x2)
      from es Some x2 have ess: "easy_step s = Inr (new, Some (idx, ps))" by simp
      from solve_cases(3)[OF ess] "1.prems"(1) have run: "solve_loop new idx ps = Inr r" by simp
      from "1.IH"[OF Inr b[symmetric] Some x2[symmetric] run wf(1) wf(2)[OF easy_step_Some(6)[OF ess]]]
      show ?thesis .
    qed
  qed
next
  case (2 new_sudoku cell_idx)
  then show ?case by simp
next
  case (3 new_sudoku cell_idx possibility rest)
  show ?case
  proof (cases "assign new_sudoku cell_idx possibility")
    case (Inl e)
    with "3.prems"(1) show ?thesis by simp
  next
    case (Inr b)
    note wfb = well_formed_assign[OF Inr "3.prems"(2)]
    from "3.prems"(2) have u: "uniq_coords new_sudoku" by (simp add: well_formed_def)
    note cb = assign_consistent[OF Inr "3.prems"(3) u]
    show ?thesis
    proof (cases "solve b")
      case solved: (Inr r')
      with "3.prems"(1) Inr have "r' = r" by simp
      with "3.IH"(1)[OF Inr _ wfb, of r] solved cb show ?thesis by simp
    next
      case (Inl e)
      with "3.prems"(1) Inr have e: "e = ClashException"
        and run: "solve_loop new_sudoku cell_idx rest = Inr r"
        by (auto split: if_splits)
      from "3.IH"(2)[OF Inr Inl e run "3.prems"(2,3)] show ?thesis .
    qed
  qed
qed

subsection \<open>The cells \<open>Sudoku.__init__\<close> builds\<close>

text \<open>
  For a validated array the constructor raises nothing, and the cell at position
  \<open>r * n + c\<close> of the tuple is \<open>cell_of\<close> of the entry in row \<open>r\<close> and column \<open>c\<close>.
\<close>

definition cell_of :: "int \<Rightarrow> nat \<Rightarrow> nat \<Rightarrow> int \<Rightarrow> cell" where
  "cell_of sudoku_order r c v =
     \<lparr>row = int r, col = int c,
      subgrid = (int r div sudoku_order, int c div sudoku_order),
      possibilities = (if v \<noteq> 0 then [v] else [1..sudoku_order ^ 2])\<rparr>"

lemma sequence_map_Inr: "sequence (map Inr xs) = Inr xs"
  by (induction xs) auto

lemma Cell_init_cell_of:
  "sudoku_order \<noteq> 0 \<Longrightarrow>
   Cell_init (int r) (int c) sudoku_order (IntVal v) = Inr (cell_of sudoku_order r c v)"
  by (simp add: Cell_init_def py_int_def cell_of_def)

definition grid_cells :: "int \<Rightarrow> int list list \<Rightarrow> cell list list" where
  "grid_cells sudoku_order arr =
     map (\<lambda>(r, xs). map (\<lambda>(c, v). cell_of sudoku_order r c v) (enumerate 0 xs)) (enumerate 0 arr)"

lemma cells_from_arr_grid:
  assumes "sudoku_order \<noteq> 0"
  shows "cells_from_arr arr sudoku_order = Inr (concat (grid_cells sudoku_order arr))"
proof -
  have "concat (map (\<lambda>(row_idx, r).
        map (\<lambda>(col_idx, v). Cell_init (int row_idx) (int col_idx) sudoku_order (IntVal v))
            (enumerate 0 r)) (enumerate 0 arr))
      = map Inr (concat (grid_cells sudoku_order arr))"
    by (simp add: grid_cells_def map_concat comp_def case_prod_unfold
        Cell_init_cell_of[OF assms])
  then show ?thesis by (simp add: cells_from_arr_def sequence_map_Inr)
qed

lemma validate_array_Inr:
  assumes "validate_array arr = Inr sudoku_order"
  shows "\<exists>k. sudoku_order = int k \<and> k * k = length arr"
    and "\<forall>xs \<in> set arr. length xs = length arr"
    and "\<forall>xs \<in> set arr. \<forall>x \<in> set xs. 0 \<le> x \<and> x \<le> sudoku_order ^ 2"
proof -
  from assms obtain k where f: "find (\<lambda>k. k * k = length arr) [0..<Suc (length arr)] = Some k"
    and o: "sudoku_order = int k"
    and a: "list_all (\<lambda>r. length r = length arr \<and>
              list_all (\<lambda>x. 0 \<le> x \<and> x \<le> int (k ^ 2)) r) arr"
    by (auto simp: validate_array_def Let_def split: option.splits if_splits)
  from f have "k * k = length arr" by (auto simp: find_Some_iff)
  with o show "\<exists>k. sudoku_order = int k \<and> k * k = length arr" by blast
  from a show "\<forall>xs \<in> set arr. length xs = length arr" by (auto simp: list_all_iff)
  from a o show "\<forall>xs \<in> set arr. \<forall>x \<in> set xs. 0 \<le> x \<and> x \<le> sudoku_order ^ 2"
    by (auto simp: list_all_iff)
qed

lemma nth_concat_uniform:
  assumes "\<forall>xs \<in> set xss. length xs = n" and "i < length xss * n"
  shows "concat xss ! i = xss ! (i div n) ! (i mod n)"
  using assms
proof (induction xss arbitrary: i)
  case Nil
  then show ?case by simp
next
  case (Cons xs xss)
  then have len: "length xs = n" by simp
  show ?case
  proof (cases "i < n")
    case True
    with len show ?thesis by (simp add: nth_append)
  next
    case False
    then have ge: "n \<le> i" by simp
    with Cons.prems have "i - n < length xss * n" by simp
    with Cons.IH[of "i - n"] Cons.prems(1)
    have "concat xss ! (i - n) = xss ! ((i - n) div n) ! ((i - n) mod n)" by simp
    moreover from Cons.prems(2) have "0 < n" by (cases n) auto
    with ge have "i div n = Suc ((i - n) div n)" "(i - n) mod n = i mod n"
      by (simp_all add: le_div_geq le_mod_geq)
    ultimately show ?thesis using len False by (simp add: nth_append)
  qed
qed

lemma length_concat_uniform:
  "\<forall>xs \<in> set xss. length xs = n \<Longrightarrow> length (concat xss) = length xss * n"
  by (induction xss) auto

lemma Sudoku_init_validated:
  assumes "Sudoku_init arr = Inr s"
  obtains sudoku_order where "validate_array arr = Inr sudoku_order"
    and "cells_from_arr arr sudoku_order = Inr s"
  using assms by (auto simp: Sudoku_init_def split: sum.splits)

lemma cells_from_arr_nth:
  assumes v: "validate_array arr = Inr sudoku_order"
    and c: "cells_from_arr arr sudoku_order = Inr s"
  shows "length s = length arr * length arr"
    and "r < length arr \<Longrightarrow> c < length arr \<Longrightarrow>
           s ! (r * length arr + c) = cell_of sudoku_order r c (arr ! r ! c)"
    and "i < length s \<Longrightarrow>
           s ! i = cell_of sudoku_order (i div length arr) (i mod length arr)
                     (arr ! (i div length arr) ! (i mod length arr))"
    and "r < length arr \<Longrightarrow> c < length arr \<Longrightarrow>
           0 \<le> arr ! r ! c \<and> arr ! r ! c \<le> sudoku_order ^ 2"
    and "arr \<noteq> [] \<Longrightarrow> 0 < sudoku_order"
    and "sudoku_order * sudoku_order = int (length arr)"
proof -
  from validate_array_Inr[OF v] obtain k where k: "sudoku_order = int k" "k * k = length arr"
    and rows: "\<forall>xs \<in> set arr. length xs = length arr"
    by blast
  let ?n = "length arr"
  show rng: "0 \<le> arr ! r ! c \<and> arr ! r ! c \<le> sudoku_order ^ 2"
    if "r < ?n" "c < ?n" for r c
  proof -
    from that rows have "arr ! r \<in> set arr" "arr ! r ! c \<in> set (arr ! r)" by simp_all
    with validate_array_Inr(3)[OF v] show ?thesis by blast
  qed
  show pos: "0 < sudoku_order" if "arr \<noteq> []"
    using that k by (cases k) auto
  from k show "sudoku_order * sudoku_order = int (length arr)"
    by (metis of_nat_mult)
  have all: "length s = ?n * ?n \<and>
    (\<forall>i < length s. s ! i = cell_of sudoku_order (i div ?n) (i mod ?n)
                     (arr ! (i div ?n) ! (i mod ?n)))"
  proof (cases "arr = []")
    case True
    with c have "s = []" by (simp add: cells_from_arr_def enumerate_eq_zip)
    with True show ?thesis by simp
  next
    case False
    from pos[OF False] have "sudoku_order \<noteq> 0" by simp
    from cells_from_arr_grid[OF this, of arr] c
    have s: "s = concat (grid_cells sudoku_order arr)" by simp
    have glen: "\<forall>xs \<in> set (grid_cells sudoku_order arr). length xs = ?n"
      using rows by (auto simp: grid_cells_def in_set_enumerate_eq)
    have gl: "length (grid_cells sudoku_order arr) = ?n" by (simp add: grid_cells_def)
    have len: "length s = ?n * ?n"
      using length_concat_uniform[OF glen] gl s by simp
    have gnth: "grid_cells sudoku_order arr ! r ! c = cell_of sudoku_order r c (arr ! r ! c)"
      if "r < ?n" "c < ?n" for r c
    proof -
      from that rows have "length (arr ! r) = ?n" by simp
      with that show ?thesis
        by (simp add: grid_cells_def nth_enumerate_eq)
    qed
    have "s ! i = cell_of sudoku_order (i div ?n) (i mod ?n) (arr ! (i div ?n) ! (i mod ?n))"
      if "i < length s" for i
    proof -
      from that len have i: "i < ?n * ?n" by simp
      then have "0 < ?n" by (cases "?n") auto
      with i have "i div ?n < ?n" "i mod ?n < ?n"
        by (simp_all add: less_mult_imp_div_less)
      with nth_concat_uniform[OF glen, of i] i gl s gnth show ?thesis by simp
    qed
    with len show ?thesis by simp
  qed
  from all show len: "length s = ?n * ?n" by simp
  from all show "s ! i = cell_of sudoku_order (i div ?n) (i mod ?n) (arr ! (i div ?n) ! (i mod ?n))"
    if "i < length s" for i using that by simp
  show "s ! (r * ?n + c) = cell_of sudoku_order r c (arr ! r ! c)"
    if "r < ?n" "c < ?n" for r c
  proof -
    from that have "r * ?n + c < Suc r * ?n" by simp
    also from that have "\<dots> \<le> ?n * ?n" by (intro mult_le_mono1) simp
    finally have "r * ?n + c < ?n * ?n" .
    moreover from that have "?n \<noteq> 0" by auto
    with that have "(r * ?n + c) div ?n = r" "(r * ?n + c) mod ?n = c"
      by (simp_all add: div_mult_self3)
    ultimately show ?thesis using all by simp
  qed
qed

lemma wf_cell_cell_of:
  assumes "0 < sudoku_order" and "0 \<le> v"
  shows "wf_cell (cell_of sudoku_order r c v)"
proof (cases "v = 0")
  case True
  from assms(1) have "1 \<le> sudoku_order ^ 2"
    by (metis one_le_power int_one_le_iff_zero_less)
  then have "[1..sudoku_order ^ 2] \<noteq> []" by simp
  moreover have "sorted_wrt (<) [1..sudoku_order ^ 2]"
    by (simp add: strict_sorted_iff)
  ultimately show ?thesis using True by (simp add: wf_cell_def cell_of_def)
next
  case False
  with assms(2) show ?thesis by (simp add: wf_cell_def cell_of_def)
qed

lemma Sudoku_init_well_formed:
  assumes "Sudoku_init arr = Inr s"
  shows "well_formed s"
proof -
  from assms obtain sudoku_order where v: "validate_array arr = Inr sudoku_order"
    and c: "cells_from_arr arr sudoku_order = Inr s"
    by (rule Sudoku_init_validated)
  note g = cells_from_arr_nth[OF v c]
  let ?n = "length arr"
  have dm: "i div ?n < ?n \<and> i mod ?n < ?n \<and> arr \<noteq> []" if "i < length s" for i
  proof -
    from that g(1) have i: "i < ?n * ?n" by simp
    then have "0 < ?n" by (cases "?n") auto
    with i show ?thesis by (simp add: less_mult_imp_div_less)
  qed
  have "wf_cell c" if "c \<in> set s" for c
  proof -
    from that obtain i where i: "i < length s" "c = s ! i" by (auto simp: in_set_conv_nth)
    from g(3)[OF i(1)] i(2) g(4)[of "i div ?n" "i mod ?n"] g(5) dm[OF i(1)] show ?thesis
      by (simp add: wf_cell_cell_of)
  qed
  moreover have "uniq_coords s"
    unfolding uniq_coords_def
  proof (intro allI impI)
    fix i j assume ij: "i < length s" "j < length s" "cell_eq (s ! i) (s ! j)"
    with g(3)[of i] g(3)[of j] have "i div ?n = j div ?n" "i mod ?n = j mod ?n"
      by (simp_all add: cell_eq_def cell_of_def)
    then show "i = j" by (metis div_mult_mod_eq)
  qed
  ultimately show ?thesis by (simp add: well_formed_def)
qed

lemma eliminate_loop_clash:
  "j < length s \<Longrightarrow> idx \<le> j \<Longrightarrow> conflicts c (s ! j) \<Longrightarrow> possibilities (s ! j) = [v] \<Longrightarrow>
   eliminate_loop s c v idx = Inl ClashException"
proof (induction s c v idx rule: eliminate_induct(2)[where P = "\<lambda>s c. True"])
  case (elim s c)
  show ?case by simp
next
  case (fin s c v idx)
  then show ?case by simp
next
  case (skip s c v idx)
  from skip.hyps(2) skip.prems(3) have "idx \<noteq> j" by (auto simp: conflicts_def)
  with skip.prems skip.IH eliminate_loop_cases(2)[OF skip.hyps(1,2), of v] show ?case by simp
next
  case (clash s c v idx e)
  from clash.hyps(4) have "e = ClashException"
    by (auto simp: cell_eliminate_def Let_def split: if_splits)
  with eliminate_loop_cases(3)[OF clash.hyps] show ?case by simp
next
  case (quiet s c v idx c')
  from quiet.hyps(4) quiet.prems(4) have "idx \<noteq> j" by (auto simp: cell_eliminate_def)
  with quiet.prems quiet.IH eliminate_loop_cases(4)[OF quiet.hyps] show ?case by simp
next
  case (cascade s c v idx c' n)
  from cascade.hyps(4) cascade.prems(4) have ne: "idx \<noteq> j" by (auto simp: cell_eliminate_def)
  show ?case
  proof (cases "eliminate (s[idx := c']) c'")
    case (Inl e)
    with eliminate_error(1)[OF Inl] eliminate_loop_cases(5)[OF cascade.hyps(1-5)] show ?thesis by simp
  next
    case (Inr s'')
    note sh = shrinksD[OF eliminate_shrinks(1)[OF Inr]]
    from sh(1) have len: "length s'' = length s" by simp
    from sh(2)[of j] cascade.prems(1) ne have cs: "cell_shrinks (s ! j) (s'' ! j)" by simp
    from cs cascade.prems(4) have "possibilities (s'' ! j) = [v]" by (simp add: cell_shrinks_def)
    moreover from cs cascade.prems(3) have "conflicts c (s'' ! j)" by (simp add: conflicts_shrinks)
    ultimately have "eliminate_loop s'' c v (Suc idx) = Inl ClashException"
      using cascade.IH[OF Inr] cascade.prems(1,2) ne len by simp
    with Inr eliminate_loop_cases(5)[OF cascade.hyps(1-5)] show ?thesis by simp
  qed
qed

lemma easy_step_loop_clash:
  "i < length s \<Longrightarrow> j < length s \<Longrightarrow> k \<le> i \<Longrightarrow> conflicts (s ! i) (s ! j) \<Longrightarrow>
   possibilities (s ! i) = [v] \<Longrightarrow> possibilities (s ! j) = [v] \<Longrightarrow> v \<noteq> 0 \<Longrightarrow>
   easy_step_loop s k = Inl ClashException"
proof (induction s k rule: easy_step_loop_induct)
  case (fin s k)
  then show ?case by simp
next
  case (skip s k)
  from skip.hyps(2) skip.prems(5,7) have "k \<noteq> i" by (auto simp: cell_value_def)
  with skip show ?case by (simp add: easy_step_loop_cases(2))
next
  case (clash s k e)
  with eliminate_error(1)[OF clash.hyps(3)] show ?case by (simp add: easy_step_loop_cases(3))
next
  case (step s k s')
  have "k \<noteq> i"
  proof
    assume "k = i"
    with step.prems(5) have "cell_value (s ! k) = v" by (simp add: cell_value_def)
    with eliminate_loop_clash[OF step.prems(2) _ step.prems(4,6), of 0] \<open>k = i\<close> step.prems(7)
    have "eliminate s (s ! k) = Inl ClashException" by (simp add: eliminate_unfold)
    with step.hyps(3) show False by simp
  qed
  note sh = shrinksD[OF eliminate_shrinks(1)[OF step.hyps(3)]]
  from sh(2)[OF step.prems(1)] sh(2)[OF step.prems(2)] step.prems(5,6)
  have "possibilities (s' ! i) = [v]" "possibilities (s' ! j) = [v]"
    by (simp_all add: cell_shrinks_def)
  moreover have "conflicts (s' ! i) (s' ! j)"
    using conflicts_shrinks[OF sh(2)[OF step.prems(2)], of "s' ! i"]
      conflicts_shrinks_left[OF sh(2)[OF step.prems(1)], of "s ! j"] step.prems(4)
    by simp
  ultimately have "easy_step_loop s' (Suc k) = Inl ClashException"
    using step.IH step.prems(1,2,3,7) sh(1) \<open>k \<noteq> i\<close> by simp
  with step.hyps show ?case by (simp add: easy_step_loop_cases(4))
qed

subsection \<open>The choice of the branch cell and the loop over its candidates\<close>

lemma tuple_less_total:
  "\<not> tuple_less a b \<Longrightarrow> \<not> tuple_less b a \<Longrightarrow> a = b"
  by (auto simp: tuple_less_def prod_eq_iff)

lemma tuple_less_trans:
  "tuple_less a b \<Longrightarrow> tuple_less b c \<Longrightarrow> tuple_less a c"
  by (auto simp: tuple_less_def)

lemma tuple_less_le_trans:
  "tuple_less a b \<Longrightarrow> \<not> tuple_less c b \<Longrightarrow> tuple_less a c"
  by (auto simp: tuple_less_def)

lemma min_loop_least:
  "x \<in> set (best # xs) \<Longrightarrow> \<not> tuple_less (key x) (key (min_loop best xs))"
proof (induction xs arbitrary: best x)
  case Nil
  then show ?case by (simp add: tuple_less_def)
next
  case (Cons y ys)
  let ?b = "if tuple_less (key y) (key best) then y else best"
  have m: "min_loop best (y # ys) = min_loop ?b ys" by simp
  have b: "\<not> tuple_less (key ?b) (key (min_loop ?b ys))"
    using Cons.IH[where x = ?b and best = ?b] by simp
  from Cons.prems consider "x = best" | "x = y" | "x \<in> set ys" by auto
  then show ?case
  proof cases
    case 1
    show ?thesis
    proof
      assume "tuple_less (key x) (key (min_loop best (y # ys)))"
      with 1 m have lt: "tuple_less (key best) (key (min_loop ?b ys))" by simp
      show False
      proof (cases "tuple_less (key y) (key best)")
        case True
        from True lt have "tuple_less (key y) (key (min_loop ?b ys))" by (rule tuple_less_trans)
        with b True show False by simp
      next
        case False
        with b lt show False by simp
      qed
    qed
  next
    case 2
    show ?thesis
    proof
      assume "tuple_less (key x) (key (min_loop best (y # ys)))"
      with 2 m have lt: "tuple_less (key y) (key (min_loop ?b ys))" by simp
      show False
      proof (cases "tuple_less (key y) (key best)")
        case True
        with b lt show False by simp
      next
        case False
        with b have "\<not> tuple_less (key best) (key (min_loop ?b ys))" by simp
        with lt have "tuple_less (key y) (key best)" by (rule tuple_less_le_trans)
        with False show False by simp
      qed
    qed
  next
    case 3
    with Cons.IH[where x = x and best = ?b] m show ?thesis by simp
  qed
qed

lemma py_min_least:
  "py_min xs = Inr m \<Longrightarrow> x \<in> set xs \<Longrightarrow> \<not> tuple_less (key x) (key m)"
proof -
  assume m: "py_min xs = Inr m" and x: "x \<in> set xs"
  then obtain y ys where xs: "xs = y # ys" by (cases xs) auto
  with m have "m = min_loop y ys" by (simp add: py_min_def)
  with min_loop_least[of x y ys] x xs show ?thesis by simp
qed

lemma not_solved_candidates:
  assumes "well_formed s" and "\<not> is_solved s"
  shows "branch_candidates s \<noteq> []"
proof -
  from assms(2) obtain i where i: "i < length s" "cell_value (s ! i) = 0"
    by (auto simp: is_solved_def list_all_length)
  with assms(1) have wf: "wf_cell (s ! i)" by (simp add: well_formed_def)
  have "1 < length (possibilities (s ! i))"
  proof (cases "possibilities (s ! i)")
    case Nil
    with wf show ?thesis by (simp add: wf_cell_def)
  next
    case (Cons a as)
    with wf i(2) show ?thesis by (cases as) (auto simp: wf_cell_def cell_value_def)
  qed
  with i(1) have "(i, possibilities (s ! i)) \<in> set (branch_candidates s)"
    by (simp add: branch_candidates_iff)
  then show ?thesis by auto
qed

lemma easy_step_loop_error:
  "easy_step_loop s i = Inl e \<Longrightarrow> e = ClashException"
proof (induction s i rule: easy_step_loop_induct)
  case (fin s i)
  then show ?case by (simp add: easy_step_loop_cases(1))
next
  case (skip s i)
  then show ?case by (simp add: easy_step_loop_cases(2))
next
  case (clash s i e')
  with eliminate_error(1)[OF clash.hyps(3)] show ?case by (simp add: easy_step_loop_cases(3))
next
  case (step s i s')
  then show ?case by (simp add: easy_step_loop_cases(4))
qed

lemma easy_step_error:
  assumes "easy_step s = Inl e" and "well_formed s"
  shows "e = ClashException"
proof (cases "is_solved s")
  case True
  with assms(1) show ?thesis by (simp add: easy_step_def)
next
  case False
  show ?thesis
  proof (cases "easy_step_loop s 0")
    case (Inl e')
    with assms(1) False easy_step_loop_error[OF Inl] show ?thesis by (simp add: easy_step_def)
  next
    case (Inr new)
    from easy_step_loop_shrinks[OF Inr] assms(2) have wf: "well_formed new"
      by (auto intro: well_formed_shrinks)
    show ?thesis
    proof (cases "is_solved new")
      case True
      with assms(1) False Inr show ?thesis by (simp add: easy_step_def)
    next
      case ns: False
      from not_solved_candidates[OF wf ns] have "\<exists>m. py_min (branch_candidates new) = Inr m"
        by (auto simp: py_min_def split: list.splits)
      with assms(1) False Inr ns show ?thesis by (auto simp: easy_step_def)
    qed
  qed
qed

lemma solve_error:
  "solve s = Inl e \<Longrightarrow> well_formed s \<Longrightarrow> e = ClashException"
  "solve_loop new idx ps = Inl e \<Longrightarrow> well_formed new \<Longrightarrow> idx < length new \<Longrightarrow>
   set ps \<subseteq> set (possibilities (new ! idx)) \<Longrightarrow> e = ClashException"
proof (induction s and new idx ps arbitrary: e and e rule: solve_solve_loop.induct)
  case (1 s)
  show ?case
  proof (cases "easy_step s")
    case (Inl e')
    with "1.prems" solve_cases(1)[OF Inl] easy_step_error[OF Inl] show ?thesis by simp
  next
    case (Inr b)
    obtain new ret where b: "b = (new, ret)" by (cases b)
    note es = Inr[unfolded b]
    show ?thesis
    proof (cases ret)
      case None
      with es solve_cases(2)[of s new] "1.prems"(1) show ?thesis by simp
    next
      case (Some x2)
      obtain idx ps where x2: "x2 = (idx, ps)" by (cases x2)
      from es Some x2 have ess: "easy_step s = Inr (new, Some (idx, ps))" by simp
      from solve_cases(3)[OF ess] "1.prems"(1) have run: "solve_loop new idx ps = Inl e" by simp
      from "1.IH"[OF Inr b[symmetric] Some x2[symmetric] run
          easy_step_well_formed(1)[OF ess "1.prems"(2)] easy_step_Some(3)[OF ess]]
        easy_step_Some(4)[OF ess]
      show ?thesis by simp
    qed
  qed
next
  case (2 new_sudoku cell_idx)
  then show ?case by simp
next
  case (3 new_sudoku cell_idx possibility rest)
  from "3.prems"(3,4) obtain b where a: "assign new_sudoku cell_idx possibility = Inr b"
    by (auto simp: assign_def set_value_def)
  show ?case
  proof (cases "solve b")
    case (Inr r')
    with "3.prems"(1) a show ?thesis by simp
  next
    case (Inl e')
    from "3.IH"(1)[OF a Inl well_formed_assign[OF a "3.prems"(2)]]
    have e': "e' = ClashException" .
    with "3.prems"(1) a Inl have "solve_loop new_sudoku cell_idx rest = Inl e" by simp
    from "3.IH"(2)[OF a Inl e' this "3.prems"(2,3)] "3.prems"(4) show ?thesis by simp
  qed
qed

lemma solve_loop_all_clash:
  "idx < length new \<Longrightarrow> set qs \<subseteq> set (possibilities (new ! idx)) \<Longrightarrow>
   \<forall>q \<in> set qs. solve (new[idx := (new ! idx)\<lparr>possibilities := [q]\<rparr>]) = Inl ClashException \<Longrightarrow>
   solve_loop new idx qs = Inl ClashException"
  by (induction qs) (auto simp: assign_def set_value_def)

lemma solve_loop_first_success:
  "idx < length new \<Longrightarrow> set qs \<subseteq> set (possibilities (new ! idx)) \<Longrightarrow> k < length qs \<Longrightarrow>
   \<forall>k'<k. solve (new[idx := (new ! idx)\<lparr>possibilities := [qs ! k']\<rparr>]) = Inl ClashException \<Longrightarrow>
   solve (new[idx := (new ! idx)\<lparr>possibilities := [qs ! k]\<rparr>]) = Inr r \<Longrightarrow>
   solve_loop new idx qs = Inr r"
proof (induction qs arbitrary: k)
  case Nil
  then show ?case by simp
next
  case (Cons q qs)
  from Cons.prems(1,2)
  have a: "assign new idx q = Inr (new[idx := (new ! idx)\<lparr>possibilities := [q]\<rparr>])"
    by (simp add: assign_def set_value_def)
  show ?case
  proof (cases k)
    case 0
    with Cons.prems(5) a show ?thesis by simp
  next
    case (Suc k')
    with Cons.prems(4) have "solve (new[idx := (new ! idx)\<lparr>possibilities := [q]\<rparr>])
        = Inl ClashException"
      by force
    moreover from Cons.prems Suc have "solve_loop new idx qs = Inr r"
      by (intro Cons.IH[of k']) auto
    ultimately show ?thesis using a by simp
  qed
qed

subsection \<open>Example puzzles\<close>

text \<open>
  Order-2 grids used at the concrete instances below: a completely filled grid with the
  value 2 twice in its last row, the same grid with its first cell empty, a grid with one
  empty cell and its solution, and a grid on which the search has to backtrack.
  \<open>puzzle_state\<close> writes down a puzzle of \<open>n\<close> columns by the candidates of its cells.
\<close>

definition filled_grid :: "int list list" where
  "filled_grid = [[1, 2, 3, 4], [3, 4, 1, 2], [2, 1, 4, 3], [4, 3, 2, 2]]"

definition open_grid :: "int list list" where
  "open_grid = [[0, 2, 3, 4], [3, 4, 1, 2], [2, 1, 4, 3], [4, 3, 2, 2]]"

definition first_grid :: "int list list" where
  "first_grid = [[0, 2, 3, 4], [3, 4, 1, 2], [2, 1, 4, 3], [4, 3, 2, 1]]"

definition solved_grid :: "int list list" where
  "solved_grid = [[1, 2, 3, 4], [3, 4, 1, 2], [2, 1, 4, 3], [4, 3, 2, 1]]"

definition branch_grid :: "int list list" where
  "branch_grid = [[0, 0, 1, 0], [0, 0, 3, 0], [4, 3, 0, 0], [0, 0, 0, 0]]"

definition branch_solution :: "int list list" where
  "branch_solution = [[3, 2, 1, 4], [1, 4, 3, 2], [4, 3, 2, 1], [2, 1, 4, 3]]"

definition puzzle_state :: "int \<Rightarrow> nat \<Rightarrow> int list list \<Rightarrow> sudoku" where
  "puzzle_state sudoku_order n pss =
     map (\<lambda>(i, ps). \<lparr>row = int (i div n), col = int (i mod n),
                      subgrid = (int (i div n) div sudoku_order, int (i mod n) div sudoku_order),
                      possibilities = ps\<rparr>) (enumerate 0 pss)"

definition branch_state :: sudoku where
  "branch_state =
     puzzle_state 2 4 [[2, 3], [2, 4], [1], [2, 4], [1, 2], [1, 2, 4], [3], [2, 4],
                       [4], [3], [2], [1], [1, 2], [1, 2], [4], [3]]"

section \<open>The solver on a store of objects\<close>

text \<open>
  The cells of a puzzle are objects that \<open>Cell.eliminate\<close> and the setter of
  \<open>Cell.value\<close> change in place, and \<open>solve\<close> works on copies made by \<open>copy.deepcopy\<close>.
  To speak about what a call changes, the solver is modelled a second time over an
  explicit store: \<open>obj h a\<close> is the \<open>Cell\<close> object at the address \<open>a\<close>, and the addresses
  below \<open>alloc h\<close> are in use.  A \<open>Sudoku\<close> object is given by its tuple \<open>cells\<close>, a list of
  addresses.  Every function returns the store it leaves, also when it raises.
\<close>

record heap =
  obj :: "nat \<Rightarrow> cell"
  alloc :: nat

type_synonym sudoku_ref = "nat list"

definition cells_of :: "heap \<Rightarrow> sudoku_ref \<Rightarrow> sudoku" where
  "cells_of h s = map (obj h) s"

definition write_cell :: "heap \<Rightarrow> nat \<Rightarrow> cell \<Rightarrow> heap" where
  "write_cell h a c = h\<lparr>obj := (obj h)(a := c)\<rparr>"

text \<open>
  \<open>copy.deepcopy\<close> of a puzzle: the cells of a puzzle are distinct objects (the constructor
  makes one for every position), and the copy has one new object for every position, with
  the coordinates and the candidates of the original.
\<close>

definition deepcopy :: "heap \<Rightarrow> sudoku_ref \<Rightarrow> heap \<times> sudoku_ref" where
  "deepcopy h s =
     (h\<lparr>obj := (\<lambda>a. if alloc h \<le> a \<and> a < alloc h + length s
                     then obj h (s ! (a - alloc h)) else obj h a),
        alloc := alloc h + length s\<rparr>,
      [alloc h..<alloc h + length s])"

function eliminate_h :: "heap \<Rightarrow> sudoku_ref \<Rightarrow> nat \<Rightarrow> heap \<times> error option"
  and eliminate_loop_h :: "heap \<Rightarrow> sudoku_ref \<Rightarrow> nat \<Rightarrow> int \<Rightarrow> nat \<Rightarrow> heap \<times> error option"
where
  "eliminate_h h s cell =
     (let v = cell_value (obj h cell) in
      if v = 0 then (h, None) else eliminate_loop_h h s cell v 0)"
| "eliminate_loop_h h s cell v idx =
     (if length s \<le> idx then (h, None)
      else
        let other_cell = s ! idx in
        if cell_eq (obj h cell) (obj h other_cell) then eliminate_loop_h h s cell v (Suc idx)
        else if matches (obj h cell) (obj h other_cell) then
          (case cell_eliminate (obj h other_cell) v of
             Inl e \<Rightarrow> (h, Some e)
           | Inr (other', newly_set) \<Rightarrow>
               let h' = write_cell h other_cell other' in
               if newly_set \<noteq> 0 then
                 (case eliminate_h h' s other_cell of
                    (h'', Some e) \<Rightarrow> (h'', Some e)
                  | (h'', None) \<Rightarrow> eliminate_loop_h h'' s cell v (Suc idx))
               else eliminate_loop_h h' s cell v (Suc idx))
        else eliminate_loop_h h s cell v (Suc idx))"
  by pat_completeness auto

definition total_h :: "heap \<Rightarrow> sudoku_ref \<Rightarrow> nat" where
  "total_h h s = total (cells_of h s)"

definition elim_rank_h ::
  "(heap \<times> sudoku_ref \<times> nat) + (heap \<times> sudoku_ref \<times> nat \<times> int \<times> nat) \<Rightarrow> nat \<times> nat" where
  "elim_rank_h x =
     (case x of
        Inl (h, s, c) \<Rightarrow> (total_h h s, length s + 1)
      | Inr (h, s, c, v, idx) \<Rightarrow> (total_h h s, length s - idx))"

lemma total_h_write_le:
  "length (possibilities c') \<le> length (possibilities (obj h a)) \<Longrightarrow>
   total_h (write_cell h a c') s \<le> total_h h s"
  unfolding total_h_def total_def cells_of_def write_cell_def
  by (induction s) (auto simp: add_mono)

lemma total_h_write_less:
  "length (possibilities c') < length (possibilities (obj h a)) \<Longrightarrow> a \<in> set s \<Longrightarrow>
   total_h (write_cell h a c') s < total_h h s"
proof (induction s)
  case Nil
  then show ?case by simp
next
  case (Cons b s)
  have le: "total_h (write_cell h a c') s \<le> total_h h s"
    using Cons.prems(1) by (intro total_h_write_le) simp
  show ?case
  proof (cases "b = a")
    case True
    with le Cons.prems(1) show ?thesis
      by (simp add: total_h_def total_def cells_of_def write_cell_def)
  next
    case False
    with Cons have "total_h (write_cell h a c') s < total_h h s" by simp
    with False show ?thesis
      by (simp add: total_h_def total_def cells_of_def write_cell_def)
  qed
qed


lemma eliminate_loop_h_pcases:
  assumes "eliminate_h_eliminate_loop_h_dom (Inr (h, s, c, v, idx))"
  shows "length s \<le> idx \<Longrightarrow> eliminate_loop_h h s c v idx = (h, None)"
    and "idx < length s \<Longrightarrow>
         cell_eq (obj h c) (obj h (s ! idx)) \<or> \<not> matches (obj h c) (obj h (s ! idx)) \<Longrightarrow>
         eliminate_loop_h h s c v idx = eliminate_loop_h h s c v (Suc idx)"
    and "idx < length s \<Longrightarrow> \<not> cell_eq (obj h c) (obj h (s ! idx)) \<Longrightarrow>
         matches (obj h c) (obj h (s ! idx)) \<Longrightarrow>
         cell_eliminate (obj h (s ! idx)) v = Inl e \<Longrightarrow>
         eliminate_loop_h h s c v idx = (h, Some e)"
    and "idx < length s \<Longrightarrow> \<not> cell_eq (obj h c) (obj h (s ! idx)) \<Longrightarrow>
         matches (obj h c) (obj h (s ! idx)) \<Longrightarrow>
         cell_eliminate (obj h (s ! idx)) v = Inr (c', 0) \<Longrightarrow>
         eliminate_loop_h h s c v idx =
           eliminate_loop_h (write_cell h (s ! idx) c') s c v (Suc idx)"
    and "idx < length s \<Longrightarrow> \<not> cell_eq (obj h c) (obj h (s ! idx)) \<Longrightarrow>
         matches (obj h c) (obj h (s ! idx)) \<Longrightarrow>
         cell_eliminate (obj h (s ! idx)) v = Inr (c', n) \<Longrightarrow> n \<noteq> 0 \<Longrightarrow>
         eliminate_loop_h h s c v idx =
           (case eliminate_h (write_cell h (s ! idx) c') s (s ! idx) of
              (h'', Some e) \<Rightarrow> (h'', Some e)
            | (h'', None) \<Rightarrow> eliminate_loop_h h'' s c v (Suc idx))"
  using assms by (auto simp: eliminate_loop_h.psimps Let_def)

lemma eliminate_loop_h_step_cases:
  obtains (fin) "length s \<le> idx"
  | (skip) "idx < length s"
      "cell_eq (obj h c) (obj h (s ! idx)) \<or> \<not> matches (obj h c) (obj h (s ! idx))"
  | (clash) e where "idx < length s" "\<not> cell_eq (obj h c) (obj h (s ! idx))"
      "matches (obj h c) (obj h (s ! idx))" "cell_eliminate (obj h (s ! idx)) v = Inl e"
  | (quiet) c' where "idx < length s" "\<not> cell_eq (obj h c) (obj h (s ! idx))"
      "matches (obj h c) (obj h (s ! idx))" "cell_eliminate (obj h (s ! idx)) v = Inr (c', 0)"
  | (cascade) c' n where "idx < length s" "\<not> cell_eq (obj h c) (obj h (s ! idx))"
      "matches (obj h c) (obj h (s ! idx))" "cell_eliminate (obj h (s ! idx)) v = Inr (c', n)"
      "n \<noteq> 0"
  by (cases "cell_eliminate (obj h (s ! idx)) v") (force simp: not_le)+

lemma total_h_quiet_step:
  "cell_eliminate (obj h a) v = Inr (c', n) \<Longrightarrow> total_h (write_cell h a c') s \<le> total_h h s"
  by (intro total_h_write_le) (rule cell_eliminate_length)

lemma total_h_cascade_step:
  "cell_eliminate (obj h a) v = Inr (c', n) \<Longrightarrow> n \<noteq> 0 \<Longrightarrow> a \<in> set s \<Longrightarrow>
   total_h (write_cell h a c') s < total_h h s"
  using cell_eliminate_newly_set[of "obj h a" v c' n]
  by (intro total_h_write_less) simp_all

lemma eliminate_h_total_partial:
  "eliminate_h_eliminate_loop_h_dom (Inl (h, s, c)) \<Longrightarrow> eliminate_h h s c = (h', r) \<Longrightarrow>
   total_h h' s \<le> total_h h s"
  "eliminate_h_eliminate_loop_h_dom (Inr (h, s, c, v, idx)) \<Longrightarrow>
   eliminate_loop_h h s c v idx = (h', r) \<Longrightarrow> total_h h' s \<le> total_h h s"
proof (induction h s c and h s c v idx arbitrary: h' r and h' r
    rule: eliminate_h_eliminate_loop_h.pinduct)
  case (1 h s c)
  then show ?case
    by (auto simp: eliminate_h.psimps Let_def split: if_splits)
next
  case (2 h s c v idx)
  note dom = "2.hyps" and run = "2.prems"
  note unf = eliminate_loop_h_pcases[OF dom]
  show ?case
  proof (cases rule: eliminate_loop_h_step_cases[where s=s and c=c and v=v and idx=idx and h=h])
    case fin
    with run unf(1) show ?thesis by simp
  next
    case skip
    from skip run unf(2) have "eliminate_loop_h h s c v (Suc idx) = (h', r)" by simp
    with skip "2.IH"(1,5) show ?thesis by (auto simp: not_le)
  next
    case clash
    with run unf(3) show ?thesis by simp
  next
    case (quiet c')
    let ?h1 = "write_cell h (s ! idx) c'"
    from quiet run unf(4) have "eliminate_loop_h ?h1 s c v (Suc idx) = (h', r)" by simp
    with quiet "2.IH"(4)[of "s ! idx" "(c', 0)" c' 0 ?h1 h' r]
    have "total_h h' s \<le> total_h ?h1 s" by (simp add: not_le)
    with total_h_quiet_step[OF quiet(4), of s] show ?thesis by simp
  next
    case (cascade c' n)
    let ?h1 = "write_cell h (s ! idx) c'"
    obtain h'' ri where inner: "eliminate_h ?h1 s (s ! idx) = (h'', ri)"
      by (cases "eliminate_h ?h1 s (s ! idx)")
    from cascade inner "2.IH"(2)[of "s ! idx" "(c', n)" c' n ?h1 h'' ri]
    have a: "total_h h'' s \<le> total_h ?h1 s" by (simp add: not_le)
    have b: "total_h h' s \<le> total_h h'' s"
    proof (cases ri)
      case None
      with cascade run unf(5) inner have outer: "eliminate_loop_h h'' s c v (Suc idx) = (h', r)"
        by simp
      from cascade inner None outer
        "2.IH"(3)[of "s ! idx" "(c', n)" c' n ?h1 h'' None h' r]
      show ?thesis by (simp add: not_le)
    next
      case (Some e)
      with cascade run unf(5) inner show ?thesis by simp
    qed
    from a b total_h_quiet_step[OF cascade(4), of s] show ?thesis by simp
  qed
qed

lemma eliminate_h_dom_total: "All eliminate_h_eliminate_loop_h_dom"
proof (rule "eliminate_h_eliminate_loop_h.termination"
    [where R = "inv_image (less_than <*lex*> less_than) elim_rank_h"], goal_cases)
  case 1
  show ?case by (intro wf_inv_image wf_lex_prod wf_less_than)
next
  case (2 h s cell x)
  then show ?case by (simp add: elim_rank_h_def)
next
  case (3 h s cell v idx x)
  then show ?case by (auto simp: elim_rank_h_def)
next
  case (4 h s cell v idx x b xa y xb)
  then have ce: "cell_eliminate (obj h (s ! idx)) v = Inr (xa, y)" and lt: "idx < length s"
    by auto
  from total_h_cascade_step[OF ce, of s] 4 lt show ?case by (auto simp: elim_rank_h_def)
next
  case (5 h s cell v idx x b xa y xb xaa ya)
  then have ce: "cell_eliminate (obj h (s ! idx)) v = Inr (xa, y)" and lt: "idx < length s"
    by auto
  from 5 have "total_h xaa s \<le> total_h xb s"
    by (auto dest: eliminate_h_total_partial(1)[OF _ sym])
  with total_h_cascade_step[OF ce, of s] 5 lt show ?case by (auto simp: elim_rank_h_def)
next
  case (6 h s cell v idx x b xa y xb)
  then have ce: "cell_eliminate (obj h (s ! idx)) v = Inr (xa, y)" and lt: "idx < length s"
    by auto
  from total_h_quiet_step[OF ce, of s] 6 lt show ?case by (auto simp: elim_rank_h_def)
next
  case (7 h s cell v idx x)
  then show ?case by (auto simp: elim_rank_h_def)
qed

termination eliminate_h
  by (rule eliminate_h_dom_total)

declare eliminate_h.simps [simp del] eliminate_loop_h.simps [simp del]


lemma eliminate_h_unfold:
  "eliminate_h h s c =
     (if cell_value (obj h c) = 0 then (h, None)
      else eliminate_loop_h h s c (cell_value (obj h c)) 0)"
  by (simp add: eliminate_h.simps Let_def)

lemmas eliminate_loop_h_cases =
  eliminate_loop_h_pcases[OF eliminate_h_dom_total[THEN spec]]

lemma eliminate_h_induct [case_names elim fin skip clash quiet cascade]:
  assumes "\<And>h s c. (cell_value (obj h c) \<noteq> 0 \<Longrightarrow> Q h s c (cell_value (obj h c)) 0) \<Longrightarrow> P h s c"
    and "\<And>h s c v idx. length s \<le> idx \<Longrightarrow> Q h s c v idx"
    and "\<And>h s c v idx. idx < length s \<Longrightarrow>
           cell_eq (obj h c) (obj h (s ! idx)) \<or> \<not> matches (obj h c) (obj h (s ! idx)) \<Longrightarrow>
           Q h s c v (Suc idx) \<Longrightarrow> Q h s c v idx"
    and "\<And>h s c v idx e. idx < length s \<Longrightarrow> \<not> cell_eq (obj h c) (obj h (s ! idx)) \<Longrightarrow>
           matches (obj h c) (obj h (s ! idx)) \<Longrightarrow>
           cell_eliminate (obj h (s ! idx)) v = Inl e \<Longrightarrow> Q h s c v idx"
    and "\<And>h s c v idx c'. idx < length s \<Longrightarrow> \<not> cell_eq (obj h c) (obj h (s ! idx)) \<Longrightarrow>
           matches (obj h c) (obj h (s ! idx)) \<Longrightarrow>
           cell_eliminate (obj h (s ! idx)) v = Inr (c', 0) \<Longrightarrow>
           Q (write_cell h (s ! idx) c') s c v (Suc idx) \<Longrightarrow> Q h s c v idx"
    and "\<And>h s c v idx c' n. idx < length s \<Longrightarrow> \<not> cell_eq (obj h c) (obj h (s ! idx)) \<Longrightarrow>
           matches (obj h c) (obj h (s ! idx)) \<Longrightarrow>
           cell_eliminate (obj h (s ! idx)) v = Inr (c', n) \<Longrightarrow> n \<noteq> 0 \<Longrightarrow>
           P (write_cell h (s ! idx) c') s (s ! idx) \<Longrightarrow>
           (\<And>h''. eliminate_h (write_cell h (s ! idx) c') s (s ! idx) = (h'', None) \<Longrightarrow>
                  Q h'' s c v (Suc idx)) \<Longrightarrow>
           Q h s c v idx"
  shows "P h s c" and "Q h s c v idx"
proof (induction h s c and h s c v idx rule: eliminate_h_eliminate_loop_h.induct)
  case (1 h s c)
  show ?case
  proof (rule assms(1))
    assume "cell_value (obj h c) \<noteq> 0"
    then show "Q h s c (cell_value (obj h c)) 0" using "1.IH" by simp
  qed
next
  case (2 h s c v idx)
  show ?case
  proof (cases rule: eliminate_loop_h_step_cases[where s=s and c=c and v=v and idx=idx and h=h])
    case fin
    then show ?thesis by (rule assms(2))
  next
    case skip
    from skip "2.IH"(1,5) have "Q h s c v (Suc idx)" by (auto simp: not_le)
    with skip show ?thesis by (rule assms(3))
  next
    case (clash e)
    then show ?thesis by (rule assms(4))
  next
    case (quiet c')
    with "2.IH"(4)[of "s ! idx" "(c', 0)" c' 0 "write_cell h (s ! idx) c'"]
    have "Q (write_cell h (s ! idx) c') s c v (Suc idx)" by (simp add: not_le)
    with quiet show ?thesis by (rule assms(5))
  next
    case (cascade c' n)
    show ?thesis
    proof (rule assms(6)[OF cascade])
      show "P (write_cell h (s ! idx) c') s (s ! idx)"
        using cascade "2.IH"(2)[of "s ! idx" "(c', n)" c' n "write_cell h (s ! idx) c'"]
        by (simp add: not_le)
      show "Q h'' s c v (Suc idx)"
        if "eliminate_h (write_cell h (s ! idx) c') s (s ! idx) = (h'', None)" for h''
        using that cascade
          "2.IH"(3)[of "s ! idx" "(c', n)" c' n "write_cell h (s ! idx) c'" h'' None]
        by (simp add: not_le)
    qed
  qed
qed

text \<open>What a store keeps: the addresses in use, and every object outside a set of addresses.\<close>

definition keeps :: "nat set \<Rightarrow> heap \<Rightarrow> heap \<Rightarrow> bool" where
  "keeps A h h' \<longleftrightarrow> alloc h' = alloc h \<and> (\<forall>a. a \<notin> A \<longrightarrow> obj h' a = obj h a)"

lemma keeps_refl: "keeps A h h"
  by (simp add: keeps_def)

lemma keeps_trans: "keeps A h h' \<Longrightarrow> keeps A h' h'' \<Longrightarrow> keeps A h h''"
  by (simp add: keeps_def)

lemma keeps_write: "a \<in> A \<Longrightarrow> keeps A h (write_cell h a c)"
  by (auto simp: keeps_def write_cell_def)

lemma eliminate_h_keeps:
  "eliminate_h h s c = (h', r) \<Longrightarrow> keeps (set s) h h'"
  "eliminate_loop_h h s c v idx = (h', r) \<Longrightarrow> keeps (set s) h h'"
proof (induction h s c and h s c v idx arbitrary: h' r and h' r rule: eliminate_h_induct)
  case (elim h s c)
  then show ?case by (auto simp: eliminate_h_unfold keeps_refl split: if_splits)
next
  case (fin h s c v idx)
  then show ?case using eliminate_loop_h_cases(1)[of s idx h c v] by (simp add: keeps_refl)
next
  case (skip h s c v idx)
  then show ?case using eliminate_loop_h_cases(2)[of idx s h c v] by simp
next
  case (clash h s c v idx e)
  then show ?case using eliminate_loop_h_cases(3)[of idx s h c v e] by (auto simp: keeps_refl)
next
  case (quiet h s c v idx c')
  from quiet.prems eliminate_loop_h_cases(4)[OF quiet.hyps]
  have "eliminate_loop_h (write_cell h (s ! idx) c') s c v (Suc idx) = (h', r)" by simp
  then have "keeps (set s) (write_cell h (s ! idx) c') h'" by (rule quiet.IH)
  with keeps_write[of "s ! idx" "set s" h c'] quiet.hyps(1) show ?case
    by (auto intro: keeps_trans)
next
  case (cascade h s c v idx c' n)
  let ?h1 = "write_cell h (s ! idx) c'"
  obtain h'' ri where inner: "eliminate_h ?h1 s (s ! idx) = (h'', ri)"
    by (cases "eliminate_h ?h1 s (s ! idx)")
  from cascade.IH(1)[OF inner] have k1: "keeps (set s) ?h1 h''" .
  have k0: "keeps (set s) h ?h1" using cascade.hyps(1) by (intro keeps_write) simp
  have "keeps (set s) h'' h'"
  proof (cases ri)
    case None
    with cascade.prems eliminate_loop_h_cases(5)[OF cascade.hyps] inner
    have "eliminate_loop_h h'' s c v (Suc idx) = (h', r)" by simp
    with cascade.IH(2) inner None show ?thesis by simp
  next
    case (Some e)
    with cascade.prems eliminate_loop_h_cases(5)[OF cascade.hyps] inner show ?thesis
      by (simp add: keeps_refl)
  qed
  with k0 k1 show ?case by (blast intro: keeps_trans)
qed

lemma eliminate_h_total:
  "eliminate_h h s c = (h', r) \<Longrightarrow> total_h h' s \<le> total_h h s"
  using eliminate_h_total_partial(1)[of h s c h' r] eliminate_h_dom_total by simp

subsection \<open>\<open>_easy_step\<close> and \<open>solve\<close> on the store\<close>

function easy_step_loop_h :: "heap \<Rightarrow> sudoku_ref \<Rightarrow> nat \<Rightarrow> heap \<times> error option" where
  "easy_step_loop_h h s i =
     (if length s \<le> i then (h, None)
      else
        let cell = s ! i in
        if cell_value (obj h cell) \<noteq> 0 then
          (case eliminate_h h s cell of
             (h', Some e) \<Rightarrow> (h', Some e)
           | (h', None) \<Rightarrow> easy_step_loop_h h' s (Suc i))
        else easy_step_loop_h h s (Suc i))"
  by pat_completeness auto

termination easy_step_loop_h
  by (relation "measure (\<lambda>(h, s, i). length s - i)") auto

declare easy_step_loop_h.simps [simp del]

lemma easy_step_loop_h_keeps:
  "easy_step_loop_h h s i = (h', r) \<Longrightarrow> keeps (set s) h h' \<and> total_h h' s \<le> total_h h s"
proof (induction h s i arbitrary: h' r rule: easy_step_loop_h.induct)
  case (1 h s i)
  show ?case
  proof (cases "length s \<le> i")
    case True
    with "1.prems" show ?thesis by (simp add: easy_step_loop_h.simps keeps_refl)
  next
    case False
    show ?thesis
    proof (cases "cell_value (obj h (s ! i)) = 0")
      case True
      with False "1.prems" have "easy_step_loop_h h s (Suc i) = (h', r)"
        by (simp add: easy_step_loop_h.simps[of h s i])
      with "1.IH"(2) False True show ?thesis by simp
    next
      case nz: False
      obtain h1 r1 where e: "eliminate_h h s (s ! i) = (h1, r1)"
        by (cases "eliminate_h h s (s ! i)")
      note k = eliminate_h_keeps(1)[OF e] eliminate_h_total[OF e]
      show ?thesis
      proof (cases r1)
        case None
        with False nz e "1.prems" have "easy_step_loop_h h1 s (Suc i) = (h', r)"
          by (simp add: easy_step_loop_h.simps[of h s i])
        with "1.IH"(1)[OF False refl _ e[symmetric] None] nz
        have "keeps (set s) h1 h' \<and> total_h h' s \<le> total_h h1 s" by simp
        with k show ?thesis by (auto intro: keeps_trans)
      next
        case (Some e')
        with False nz e "1.prems" have "h' = h1"
          by (simp add: easy_step_loop_h.simps[of h s i])
        with k show ?thesis by simp
      qed
    qed
  qed
qed

definition easy_step_h ::
  "heap \<Rightarrow> sudoku_ref \<Rightarrow> heap \<times> (error + (nat \<times> int list) option)" where
  "easy_step_h h s =
     (if is_solved (cells_of h s) then (h, Inr None)
      else
        case easy_step_loop_h h s 0 of
          (h', Some e) \<Rightarrow> (h', Inl e)
        | (h', None) \<Rightarrow>
            if \<not> is_solved (cells_of h' s) then
              (case py_min (branch_candidates (cells_of h' s)) of
                 Inl e \<Rightarrow> (h', Inl e)
               | Inr m \<Rightarrow> (h', Inr (Some m)))
            else (h', Inr None))"

definition assign_h :: "heap \<Rightarrow> sudoku_ref \<Rightarrow> nat \<Rightarrow> int \<Rightarrow> heap \<times> error option" where
  "assign_h h s cell_idx val =
     (if length s \<le> cell_idx then (h, Some IndexError)
      else
        case set_value (obj h (s ! cell_idx)) val of
          Inl e \<Rightarrow> (h, Some e)
        | Inr c \<Rightarrow> (write_cell h (s ! cell_idx) c, None))"

function solve_h :: "heap \<Rightarrow> sudoku_ref \<Rightarrow> heap \<times> (error + sudoku_ref)"
  and solve_loop_h :: "heap \<Rightarrow> sudoku_ref \<Rightarrow> nat \<Rightarrow> int list \<Rightarrow> heap \<times> (error + sudoku_ref)"
where
  "solve_h h s =
     (case deepcopy h s of
        (h1, new_sudoku) \<Rightarrow>
          (case easy_step_h h1 new_sudoku of
             (h2, Inl e) \<Rightarrow> (h2, Inl e)
           | (h2, Inr ret_val) \<Rightarrow>
               (case ret_val of
                  None \<Rightarrow> (h2, Inr new_sudoku)
                | Some (cell_idx, poss) \<Rightarrow> solve_loop_h h2 new_sudoku cell_idx poss)))"
| "solve_loop_h h new_sudoku cell_idx [] = (h, Inl ClashException)"
| "solve_loop_h h new_sudoku cell_idx (possibility # rest) =
     (case deepcopy h new_sudoku of
        (h1, new_sudoku2) \<Rightarrow>
          (case assign_h h1 new_sudoku2 cell_idx possibility of
             (h2, Some e) \<Rightarrow> (h2, Inl e)
           | (h2, None) \<Rightarrow>
               (case solve_h h2 new_sudoku2 of
                  (h3, Inr solved) \<Rightarrow> (h3, Inr solved)
                | (h3, Inl e) \<Rightarrow>
                    if e = ClashException then solve_loop_h h3 new_sudoku cell_idx rest
                    else (h3, Inl e))))"
  by pat_completeness auto


text \<open>\<open>extends h h'\<close>: the store \<open>h'\<close> differs from \<open>h\<close> only at addresses that \<open>h\<close> does not use.\<close>

definition extends :: "heap \<Rightarrow> heap \<Rightarrow> bool" where
  "extends h h' \<longleftrightarrow> alloc h \<le> alloc h' \<and> (\<forall>a<alloc h. obj h' a = obj h a)"

lemma extends_refl: "extends h h"
  by (simp add: extends_def)

lemma extends_trans: "extends h h' \<Longrightarrow> extends h' h'' \<Longrightarrow> extends h h''"
  by (auto simp: extends_def)

lemma extends_keeps:
  assumes "extends h0 h" and "keeps A h h'" and "\<forall>a \<in> A. alloc h0 \<le> a"
  shows "extends h0 h'"
proof -
  have "obj h' a = obj h0 a" if "a < alloc h0" for a
  proof -
    from that assms(3) have "a \<notin> A" by auto
    with assms(1,2) that show ?thesis by (simp add: extends_def keeps_def)
  qed
  with assms(1,2) show ?thesis by (simp add: extends_def keeps_def)
qed

lemma deepcopy_facts:
  assumes "deepcopy h s = (h1, new)"
  shows "extends h h1" and "new = [alloc h..<alloc h + length s]"
    and "alloc h1 = alloc h + length s" and "cells_of h1 new = cells_of h s"
    and "\<forall>a \<in> set new. alloc h \<le> a" and "set new \<subseteq> {..<alloc h1}" and "distinct new"
    and "length new = length s"
proof -
  from assms have h1: "h1 = h\<lparr>obj := (\<lambda>a. if alloc h \<le> a \<and> a < alloc h + length s
                     then obj h (s ! (a - alloc h)) else obj h a),
        alloc := alloc h + length s\<rparr>"
    and new: "new = [alloc h..<alloc h + length s]"
    by (simp_all add: deepcopy_def)
  from h1 show "extends h h1" by (simp add: extends_def)
  from new show "new = [alloc h..<alloc h + length s]" .
  from h1 show "alloc h1 = alloc h + length s" by simp
  from h1 new show "cells_of h1 new = cells_of h s"
    by (auto simp: cells_of_def intro!: nth_equalityI)
  from new show "\<forall>a \<in> set new. alloc h \<le> a" by simp
  from h1 new show "set new \<subseteq> {..<alloc h1}" by auto
  from new show "distinct new" by simp
  from new show "length new = length s" by simp
qed

lemma easy_step_h_facts:
  assumes "easy_step_h h s = (h', r)"
  shows "keeps (set s) h h'" and "total_h h' s \<le> total_h h s"
    and "r = Inr (Some (idx, ps)) \<Longrightarrow>
         idx < length s \<and> ps = possibilities (obj h' (s ! idx)) \<and> 1 < length ps"
proof -
  obtain h1 r1 where l: "easy_step_loop_h h s 0 = (h1, r1)"
    by (cases "easy_step_loop_h h s 0")
  note k = easy_step_loop_h_keeps[OF l]
  from assms l have "h' = h \<or> h' = h1"
    by (auto simp: easy_step_h_def split: if_splits option.splits sum.splits)
  with k show "keeps (set s) h h'" and "total_h h' s \<le> total_h h s"
    by (auto simp: keeps_refl)
  assume "r = Inr (Some (idx, ps))"
  with assms l have "py_min (branch_candidates (cells_of h' s)) = Inr (idx, ps)"
    by (auto simp: easy_step_h_def split: if_splits option.splits sum.splits)
  from py_min_in[OF this]
  show "idx < length s \<and> ps = possibilities (obj h' (s ! idx)) \<and> 1 < length ps"
    by (auto simp: branch_candidates_iff cells_of_def)
qed

lemma assign_h_facts:
  assumes "assign_h h s idx p = (h', r)"
  shows "keeps (set s) h h'"
    and "r = None \<Longrightarrow> idx < length s \<and> p \<in> set (possibilities (obj h (s ! idx))) \<and>
           h' = write_cell h (s ! idx) ((obj h (s ! idx))\<lparr>possibilities := [p]\<rparr>)"
proof -
  from assms show "keeps (set s) h h'"
    by (auto simp: assign_h_def set_value_def keeps_refl keeps_write split: if_splits)
  assume "r = None"
  with assms show "idx < length s \<and> p \<in> set (possibilities (obj h (s ! idx))) \<and>
           h' = write_cell h (s ! idx) ((obj h (s ! idx))\<lparr>possibilities := [p]\<rparr>)"
    by (auto simp: assign_h_def set_value_def split: if_splits)
qed

lemma cells_of_write:
  "distinct s \<Longrightarrow> idx < length s \<Longrightarrow>
   cells_of (write_cell h (s ! idx) c) s = (cells_of h s)[idx := c]"
  by (auto simp: cells_of_def write_cell_def nth_eq_iff_index_eq intro!: nth_equalityI)

lemma solve_h_extends_partial:
  "solve_h_solve_loop_h_dom (Inl (h, s)) \<Longrightarrow> solve_h h s = (h', r) \<Longrightarrow> extends h h'"
  "solve_h_solve_loop_h_dom (Inr (h, new, idx, ps)) \<Longrightarrow> solve_loop_h h new idx ps = (h', r) \<Longrightarrow>
   extends h h'"
proof (induction h s and h new idx ps arbitrary: h' r and h' r rule: solve_h_solve_loop_h.pinduct)
  case (1 h s)
  obtain h1 new where dc: "deepcopy h s = (h1, new)" by (cases "deepcopy h s")
  obtain h2 ret where es: "easy_step_h h1 new = (h2, ret)" by (cases "easy_step_h h1 new")
  note d = deepcopy_facts[OF dc]
  from extends_keeps[OF d(1) easy_step_h_facts(1)[OF es] d(5)] have e2: "extends h h2" .
  show ?case
  proof (cases ret)
    case (Inl e)
    with "1.prems" dc es e2 show ?thesis by (simp add: solve_h.psimps[OF "1.hyps"])
  next
    case (Inr b)
    show ?thesis
    proof (cases b)
      case None
      with "1.prems" dc es e2 Inr show ?thesis by (simp add: solve_h.psimps[OF "1.hyps"])
    next
      case (Some x2)
      obtain ci ps where x2: "x2 = (ci, ps)" by (cases x2)
      from "1.prems" dc es Inr Some x2 have "solve_loop_h h2 new ci ps = (h', r)"
        by (simp add: solve_h.psimps[OF "1.hyps"])
      from "1.IH"[OF dc[symmetric] es[symmetric] Inr Some x2[symmetric] this] e2
      show ?thesis by (rule extends_trans[rotated])
    qed
  qed
next
  case (2 h new_sudoku cell_idx)
  then show ?case by (simp add: solve_loop_h.psimps extends_refl)
next
  case (3 h new_sudoku cell_idx possibility rest)
  note ps = solve_loop_h.psimps(2)[OF "3.hyps"]
  obtain h1 new2 where dc: "deepcopy h new_sudoku = (h1, new2)" by (cases "deepcopy h new_sudoku")
  obtain h2 ra where a: "assign_h h1 new2 cell_idx possibility = (h2, ra)"
    by (cases "assign_h h1 new2 cell_idx possibility")
  note d = deepcopy_facts[OF dc]
  from extends_keeps[OF d(1) assign_h_facts(1)[OF a] d(5)] have e2: "extends h h2" .
  show ?case
  proof (cases ra)
    case (Some e)
    with "3.prems" dc a e2 show ?thesis by (simp add: ps)
  next
    case None
    obtain h3 rs where sv: "solve_h h2 new2 = (h3, rs)" by (cases "solve_h h2 new2")
    from "3.IH"(1)[OF dc[symmetric] a[symmetric] None sv] e2 have e3: "extends h h3"
      by (rule extends_trans[rotated])
    show ?thesis
    proof (cases rs)
      case (Inr solved)
      with "3.prems" dc a None sv e3 show ?thesis by (simp add: ps)
    next
      case (Inl e)
      show ?thesis
      proof (cases "e = ClashException")
        case False
        with "3.prems" dc a None sv Inl e3 show ?thesis by (simp add: ps)
      next
        case True
        with "3.prems" dc a None sv Inl
        have "solve_loop_h h3 new_sudoku cell_idx rest = (h', r)" by (simp add: ps)
        from "3.IH"(2)[OF dc[symmetric] a[symmetric] None sv[symmetric] Inl True this] e3
        show ?thesis by (rule extends_trans[rotated])
      qed
    qed
  qed
qed

definition solve_rank_h ::
  "(heap \<times> sudoku_ref) + (heap \<times> sudoku_ref \<times> nat \<times> int list) \<Rightarrow> nat \<times> nat \<times> nat" where
  "solve_rank_h x =
     (case x of
        Inl (h, s) \<Rightarrow> (0, total_h h s, 0)
      | Inr (h, s, cell_idx, poss) \<Rightarrow>
          if set s \<subseteq> {..<alloc h} then
            (0, if cell_idx < length s
                then total_h h s + 1 - length (possibilities (obj h (s ! cell_idx))) else 0,
             1 + length poss)
          else (1, 0, 1 + length poss))"

lemma extends_cells_of:
  "extends h h' \<Longrightarrow> set s \<subseteq> {..<alloc h} \<Longrightarrow> cells_of h' s = cells_of h s"
  by (auto simp: extends_def cells_of_def)

lemma solve_h_dom_total: "All solve_h_solve_loop_h_dom"
proof (rule "solve_h_solve_loop_h.termination"
    [where R = "inv_image (less_than <*lex*> less_than <*lex*> less_than) solve_rank_h"],
    goal_cases)
  case 1
  show ?case by (intro wf_inv_image wf_lex_prod wf_less_than)
next
  case (2 h s x y xa ya b x2 xb yaa)
  then have dc: "deepcopy h s = (x, y)" and es: "easy_step_h x y = (xa, Inr (Some (xb, yaa)))"
    by simp_all
  note d = deepcopy_facts[OF dc]
  note e = easy_step_h_facts[OF es]
  from e(3)[OF refl] have i: "xb < length y" "yaa = possibilities (obj xa (y ! xb))"
    "1 < length yaa"
    by blast+
  from e(1) d(6) have sub: "set y \<subseteq> {..<alloc xa}" by (simp add: keeps_def)
  from i(1) have "length (possibilities (obj xa (y ! xb))) \<le> total_h xa y"
    using total_nth_le[of xb "cells_of xa y"] by (simp add: total_h_def cells_of_def)
  moreover from e(2) d(4) have "total_h xa y \<le> total_h h s" by (simp add: total_h_def)
  ultimately show ?case using i sub by (simp add: solve_rank_h_def)
next
  case (3 h new_sudoku cell_idx possibility rest x y xa ya)
  then have dc: "deepcopy h new_sudoku = (x, y)"
    and a: "assign_h x y cell_idx possibility = (xa, None)" by simp_all
  note d = deepcopy_facts[OF dc]
  from assign_h_facts(2)[OF a] have i: "cell_idx < length y"
    and m: "possibility \<in> set (possibilities (obj x (y ! cell_idx)))"
    and xa: "xa = write_cell x (y ! cell_idx) ((obj x (y ! cell_idx))\<lparr>possibilities := [possibility]\<rparr>)"
    by simp_all
  have "total_h xa y + length (possibilities (cells_of x y ! cell_idx))
        = total_h x y + 1"
    using total_update[of cell_idx "cells_of x y"
        "(obj x (y ! cell_idx))\<lparr>possibilities := [possibility]\<rparr>"]
      cells_of_write[OF d(7) i, of x] i xa
    by (simp add: total_h_def cells_of_def)
  with d(4) d(8) i have "total_h xa y + length (possibilities (obj h (new_sudoku ! cell_idx)))
        = total_h h new_sudoku + 1"
    by (simp add: total_h_def cells_of_def)
  then have "total_h xa y
      = total_h h new_sudoku + 1 - length (possibilities (obj h (new_sudoku ! cell_idx)))"
    by arith
  with i d(8) show ?case by (simp add: solve_rank_h_def)
next
  case (4 h new_sudoku cell_idx possibility rest x y xa ya xb yaa a)
  then have dc: "deepcopy h new_sudoku = (x, y)"
    and a: "assign_h x y cell_idx possibility = (xa, None)"
    and sv: "solve_h xa y = (xb, Inl ClashException)"
    and dom: "solve_h_solve_loop_h_dom (Inl (xa, y))" by simp_all
  note d = deepcopy_facts[OF dc]
  from extends_keeps[OF d(1) assign_h_facts(1)[OF a] d(5)] have "extends h xa" .
  from this solve_h_extends_partial(1)[OF dom sv] have ex: "extends h xb" by (rule extends_trans)
  show ?case
  proof (cases "set new_sudoku \<subseteq> {..<alloc h}")
    case True
    from extends_cells_of[OF ex True] have c: "cells_of xb new_sudoku = cells_of h new_sudoku" .
    then have "total_h xb new_sudoku = total_h h new_sudoku" by (simp add: total_h_def)
    moreover from c have "cell_idx < length new_sudoku \<Longrightarrow>
        obj xb (new_sudoku ! cell_idx) = obj h (new_sudoku ! cell_idx)"
      by (simp add: cells_of_def)
    moreover from True ex have "set new_sudoku \<subseteq> {..<alloc xb}"
      by (auto simp: extends_def)
    ultimately show ?thesis using True by (simp add: solve_rank_h_def)
  next
    case False
    then show ?thesis by (simp add: solve_rank_h_def)
  qed
qed

termination solve_h
  by (rule solve_h_dom_total)

declare solve_h.simps [simp del]

text \<open>
  The store after \<open>Sudoku.__init__\<close>: the cells of the new puzzle are the objects at the
  addresses \<open>0, \<dots>, n - 1\<close>.
\<close>

definition heap_of :: "sudoku \<Rightarrow> heap" where
  "heap_of cs =
     \<lparr>obj = (\<lambda>a. if a < length cs then cs ! a
                 else \<lparr>row = 0, col = 0, subgrid = (0, 0), possibilities = []\<rparr>),
      alloc = length cs\<rparr>"

lemma cells_of_heap_of: "cells_of (heap_of cs) [0..<length cs] = cs"
  by (auto simp: cells_of_def heap_of_def intro!: nth_equalityI)

lemma solve_h_cases:
  assumes "deepcopy h s = (h1, new)"
  shows "easy_step_h h1 new = (h2, Inl e) \<Longrightarrow> solve_h h s = (h2, Inl e)"
    and "easy_step_h h1 new = (h2, Inr None) \<Longrightarrow> solve_h h s = (h2, Inr new)"
    and "easy_step_h h1 new = (h2, Inr (Some (idx, ps))) \<Longrightarrow>
         solve_h h s = solve_loop_h h2 new idx ps"
  using assms by (simp_all add: solve_h.simps)

lemma solve_h_extends:
  "solve_h h s = (h', r) \<Longrightarrow> extends h h'"
  using solve_h_extends_partial(1)[of h s h' r] solve_h_dom_total by simp

lemma solve_loop_h_extends:
  "solve_loop_h h new idx ps = (h', r) \<Longrightarrow> extends h h'"
  using solve_h_extends_partial(2)[of h new idx ps h' r] solve_h_dom_total by simp

lemma solve_h_fresh:
  "solve_h h s = (h', Inr solved) \<Longrightarrow> \<forall>a \<in> set solved. alloc h \<le> a"
  "solve_loop_h h new idx ps = (h', Inr solved) \<Longrightarrow> \<forall>a \<in> set solved. alloc h \<le> a"
proof (induction h s and h new idx ps arbitrary: h' solved and h' solved
    rule: solve_h_solve_loop_h.induct)
  case (1 h s)
  obtain h1 new where dc: "deepcopy h s = (h1, new)" by (cases "deepcopy h s")
  obtain h2 ret where es: "easy_step_h h1 new = (h2, ret)" by (cases "easy_step_h h1 new")
  note d = deepcopy_facts[OF dc]
  from easy_step_h_facts(1)[OF es] d(3) have al: "alloc h \<le> alloc h2" by (simp add: keeps_def)
  show ?case
  proof (cases ret)
    case (Inl e)
    with "1.prems" solve_h_cases(1)[OF dc, of h2 e] es show ?thesis by simp
  next
    case (Inr b)
    show ?thesis
    proof (cases b)
      case None
      with "1.prems" solve_h_cases(2)[OF dc, of h2] es Inr d(5) show ?thesis by simp
    next
      case (Some x2)
      obtain ci ps where x2: "x2 = (ci, ps)" by (cases x2)
      from "1.prems" solve_h_cases(3)[OF dc, of h2 ci ps] es Inr Some x2
      have "solve_loop_h h2 new ci ps = (h', Inr solved)" by simp
      from "1.IH"[OF dc[symmetric] es[symmetric] Inr Some x2[symmetric] this] al
      show ?thesis by auto
    qed
  qed
next
  case (2 h new_sudoku cell_idx)
  then show ?case by simp
next
  case (3 h new_sudoku cell_idx possibility rest)
  obtain h1 new2 where dc: "deepcopy h new_sudoku = (h1, new2)" by (cases "deepcopy h new_sudoku")
  obtain h2 ra where a: "assign_h h1 new2 cell_idx possibility = (h2, ra)"
    by (cases "assign_h h1 new2 cell_idx possibility")
  note d = deepcopy_facts[OF dc]
  from assign_h_facts(1)[OF a] d(3) have al: "alloc h \<le> alloc h2" by (simp add: keeps_def)
  show ?case
  proof (cases ra)
    case (Some e)
    with "3.prems" dc a show ?thesis by simp
  next
    case None
    obtain h3 rs where sv: "solve_h h2 new2 = (h3, rs)" by (cases "solve_h h2 new2")
    from solve_h_extends[OF sv] al have al3: "alloc h \<le> alloc h3" by (simp add: extends_def)
    show ?thesis
    proof (cases rs)
      case (Inr sol)
      with "3.prems" dc a None sv have "sol = solved" by simp
      with "3.IH"(1)[OF dc[symmetric] a[symmetric] None, of h3 solved] sv Inr al
      show ?thesis by auto
    next
      case (Inl e)
      with "3.prems" dc a None sv have e: "e = ClashException"
        and "solve_loop_h h3 new_sudoku cell_idx rest = (h', Inr solved)"
        by (auto split: if_splits)
      from "3.IH"(2)[OF dc[symmetric] a[symmetric] None sv[symmetric] Inl e this(2)] al3
      show ?thesis by auto
    qed
  qed
qed

subsection \<open>The store model and the value model agree\<close>

text \<open>
  The solver on the store computes what the solver on values computes: read through the
  references, the results of \<open>eliminate\<close>, \<open>_easy_step\<close> and \<open>solve\<close> are those of the value
  model, with the same exceptions.  The properties of the value model therefore hold of
  the grids that the store model returns.
\<close>

definition same_coords :: "cell \<Rightarrow> cell \<Rightarrow> bool" where
  "same_coords c d \<longleftrightarrow> row c = row d \<and> col c = col d \<and> subgrid c = subgrid d"

lemma same_coords_refl: "same_coords c c"
  by (simp add: same_coords_def)

lemma same_coords_trans: "same_coords a b \<Longrightarrow> same_coords b c \<Longrightarrow> same_coords a c"
  by (simp add: same_coords_def)

lemma same_coords_tests:
  "same_coords c c' \<Longrightarrow> cell_eq c d = cell_eq c' d"
  "same_coords c c' \<Longrightarrow> matches c d = matches c' d"
  by (simp_all add: same_coords_def cell_eq_def matches_def)

lemma cell_eliminate_coords:
  "cell_eliminate c v = Inr (c', n) \<Longrightarrow> same_coords c c'"
  by (auto simp: cell_eliminate_def Let_def same_coords_def split: if_splits)

lemma same_coords_write:
  "same_coords (obj h a) c' \<Longrightarrow> same_coords (obj h b) (obj (write_cell h a c') b)"
  by (simp add: write_cell_def same_coords_refl)

definition result_matches :: "heap \<Rightarrow> sudoku_ref \<Rightarrow> error option \<Rightarrow> error + sudoku \<Rightarrow> bool" where
  "result_matches h' s r p \<longleftrightarrow>
     (case r of None \<Rightarrow> p = Inr (cells_of h' s) | Some e \<Rightarrow> p = Inl e)"

lemma eliminate_h_refines:
  "eliminate_h h s c = (h', r) \<Longrightarrow> distinct s \<Longrightarrow>
   (\<forall>a. same_coords (obj h a) (obj h' a)) \<and>
   result_matches h' s r (eliminate (cells_of h s) (obj h c))"
  "eliminate_loop_h h s c v idx = (h', r) \<Longrightarrow> distinct s \<Longrightarrow> same_coords c0 (obj h c) \<Longrightarrow>
   (\<forall>a. same_coords (obj h a) (obj h' a)) \<and>
   result_matches h' s r (eliminate_loop (cells_of h s) c0 v idx)"
proof (induction h s c and h s c v idx arbitrary: h' r and h' r c0 rule: eliminate_h_induct)
  case (elim h s c)
  show ?case
  proof (cases "cell_value (obj h c) = 0")
    case True
    with elim.prems show ?thesis
      by (simp add: eliminate_h_unfold eliminate_unfold result_matches_def same_coords_refl)
  next
    case False
    with elim.prems have "eliminate_loop_h h s c (cell_value (obj h c)) 0 = (h', r)"
      by (simp add: eliminate_h_unfold)
    from elim.IH[OF False this elim.prems(2) same_coords_refl] False show ?thesis
      by (simp add: eliminate_unfold)
  qed
next
  case (fin h s c v idx)
  then show ?case
    using eliminate_loop_h_cases(1)[of s idx h c v]
      eliminate_loop_cases(1)[of "cells_of h s" idx c0 v]
    by (simp add: result_matches_def same_coords_refl cells_of_def)
next
  case (skip h s c v idx)
  from skip.prems(1) eliminate_loop_h_cases(2)[OF skip.hyps]
  have run: "eliminate_loop_h h s c v (Suc idx) = (h', r)" by simp
  from skip.hyps same_coords_tests[OF skip.prems(3)]
  have "idx < length (cells_of h s)"
    "cell_eq c0 (cells_of h s ! idx) \<or> \<not> matches c0 (cells_of h s ! idx)"
    by (simp_all add: cells_of_def)
  from eliminate_loop_cases(2)[OF this, of v] skip.IH[OF run skip.prems(2,3)]
  show ?case by simp
next
  case (clash h s c v idx e)
  from clash.prems(1) eliminate_loop_h_cases(3)[OF clash.hyps]
  have r: "h' = h" "r = Some e" by simp_all
  from clash.hyps same_coords_tests[OF clash.prems(3)]
  have "idx < length (cells_of h s)" "\<not> cell_eq c0 (cells_of h s ! idx)"
    "matches c0 (cells_of h s ! idx)" "cell_eliminate (cells_of h s ! idx) v = Inl e"
    by (simp_all add: cells_of_def)
  from eliminate_loop_cases(3)[OF this] r show ?case
    by (simp add: result_matches_def same_coords_refl)
next
  case (quiet h s c v idx c')
  let ?h1 = "write_cell h (s ! idx) c'"
  from quiet.prems(1) eliminate_loop_h_cases(4)[OF quiet.hyps]
  have run: "eliminate_loop_h ?h1 s c v (Suc idx) = (h', r)" by simp
  note co = same_coords_write[OF cell_eliminate_coords[OF quiet.hyps(4)]]
  from quiet.prems(3) co[of c] have sc: "same_coords c0 (obj ?h1 c)" by (rule same_coords_trans)
  from quiet.hyps same_coords_tests[OF quiet.prems(3)]
  have "idx < length (cells_of h s)" "\<not> cell_eq c0 (cells_of h s ! idx)"
    "matches c0 (cells_of h s ! idx)" "cell_eliminate (cells_of h s ! idx) v = Inr (c', 0)"
    by (simp_all add: cells_of_def)
  from eliminate_loop_cases(4)[OF this] cells_of_write[OF quiet.prems(2) quiet.hyps(1), of h c']
    quiet.IH[OF run quiet.prems(2) sc] co
  show ?case by (auto intro: same_coords_trans)
next
  case (cascade h s c v idx c' n)
  let ?h1 = "write_cell h (s ! idx) c'"
  obtain h'' ri where inner: "eliminate_h ?h1 s (s ! idx) = (h'', ri)"
    by (cases "eliminate_h ?h1 s (s ! idx)")
  note co = same_coords_write[OF cell_eliminate_coords[OF cascade.hyps(4)]]
  note cw = cells_of_write[OF cascade.prems(2) cascade.hyps(1), of h c']
  have o1: "obj ?h1 (s ! idx) = c'" by (simp add: write_cell_def)
  from cascade.IH(1)[OF inner cascade.prems(2)] o1 cw
  have i1: "\<forall>a. same_coords (obj ?h1 a) (obj h'' a)"
    and i2: "result_matches h'' s ri (eliminate ((cells_of h s)[idx := c']) c')"
    by simp_all
  from cascade.hyps same_coords_tests[OF cascade.prems(3)]
  have "idx < length (cells_of h s)" "\<not> cell_eq c0 (cells_of h s ! idx)"
    "matches c0 (cells_of h s ! idx)" "cell_eliminate (cells_of h s ! idx) v = Inr (c', n)"
    "n \<noteq> 0"
    by (simp_all add: cells_of_def)
  note pure = eliminate_loop_cases(5)[OF this]
  have c1: "same_coords (obj h a) (obj h'' a)" for a
    using co[of a] i1 by (blast intro: same_coords_trans)
  show ?case
  proof (cases ri)
    case (Some e)
    with cascade.prems(1) eliminate_loop_h_cases(5)[OF cascade.hyps(1-5)] inner
    have "h' = h''" "r = Some e" by simp_all
    with i2 Some pure c1 show ?thesis by (simp add: result_matches_def)
  next
    case None
    with cascade.prems(1) eliminate_loop_h_cases(5)[OF cascade.hyps(1-5)] inner
    have run: "eliminate_loop_h h'' s c v (Suc idx) = (h', r)" by simp
    from cascade.prems(3) c1[of c] have sc: "same_coords c0 (obj h'' c)"
      by (rule same_coords_trans)
    from cascade.IH(2)[OF _ run cascade.prems(2) sc] inner None
    have o: "\<forall>a. same_coords (obj h'' a) (obj h' a)"
      "result_matches h' s r (eliminate_loop (cells_of h'' s) c0 v (Suc idx))"
      by simp_all
    from i2 None have "eliminate ((cells_of h s)[idx := c']) c' = Inr (cells_of h'' s)"
      by (simp add: result_matches_def)
    with pure o(2) have "result_matches h' s r (eliminate_loop (cells_of h s) c0 v idx)"
      by simp
    moreover from c1 o(1) have "\<forall>a. same_coords (obj h a) (obj h' a)"
      by (blast intro: same_coords_trans)
    ultimately show ?thesis by simp
  qed
qed


lemma easy_step_loop_h_refines:
  "easy_step_loop_h h s i = (h', r) \<Longrightarrow> distinct s \<Longrightarrow>
   result_matches h' s r (easy_step_loop (cells_of h s) i)"
proof (induction h s i arbitrary: h' r rule: easy_step_loop_h.induct)
  case (1 h s i)
  let ?cs = "cells_of h s"
  show ?case
  proof (cases "length s \<le> i")
    case True
    with "1.prems" show ?thesis
      by (simp add: easy_step_loop_h.simps easy_step_loop_cases(1) result_matches_def cells_of_def)
  next
    case False
    then have lt: "i < length ?cs" and at: "?cs ! i = obj h (s ! i)"
      by (simp_all add: cells_of_def)
    show ?thesis
    proof (cases "cell_value (obj h (s ! i)) = 0")
      case True
      with False "1.prems" have run: "easy_step_loop_h h s (Suc i) = (h', r)"
        by (simp add: easy_step_loop_h.simps[of h s i])
      from "1.IH"(2)[OF False refl _ run "1.prems"(2)] True
        easy_step_loop_cases(2)[OF lt] at
      show ?thesis by simp
    next
      case nz: False
      obtain h1 r1 where e: "eliminate_h h s (s ! i) = (h1, r1)"
        by (cases "eliminate_h h s (s ! i)")
      from eliminate_h_refines(1)[OF e "1.prems"(2)] at
      have rm: "result_matches h1 s r1 (eliminate ?cs (?cs ! i))" by simp
      show ?thesis
      proof (cases r1)
        case None
        with False nz e "1.prems" have run: "easy_step_loop_h h1 s (Suc i) = (h', r)"
          by (simp add: easy_step_loop_h.simps[of h s i])
        from rm None have "eliminate ?cs (?cs ! i) = Inr (cells_of h1 s)"
          by (simp add: result_matches_def)
        from easy_step_loop_cases(4)[OF lt _ this] nz at
          "1.IH"(1)[OF False refl _ e[symmetric] None run "1.prems"(2)]
        show ?thesis by simp
      next
        case (Some e')
        with False nz e "1.prems" have "h' = h1" "r = Some e'"
          by (simp_all add: easy_step_loop_h.simps[of h s i])
        moreover from rm Some have "eliminate ?cs (?cs ! i) = Inl e'"
          by (simp add: result_matches_def)
        from easy_step_loop_cases(3)[OF lt _ this] nz at
        have "easy_step_loop ?cs i = Inl e'" by simp
        ultimately show ?thesis by (simp add: result_matches_def)
      qed
    qed
  qed
qed

lemma easy_step_h_refines:
  assumes "easy_step_h h s = (h', r)" and "distinct s"
  shows "case r of
           Inl e \<Rightarrow> easy_step (cells_of h s) = Inl e
         | Inr ret \<Rightarrow> easy_step (cells_of h s) = Inr (cells_of h' s, ret)"
proof (cases "is_solved (cells_of h s)")
  case True
  with assms show ?thesis by (auto simp: easy_step_h_def easy_step_def)
next
  case False
  obtain h1 r1 where l: "easy_step_loop_h h s 0 = (h1, r1)"
    by (cases "easy_step_loop_h h s 0")
  note rm = easy_step_loop_h_refines[OF l assms(2)]
  show ?thesis
  proof (cases r1)
    case (Some e)
    with rm have "easy_step_loop (cells_of h s) 0 = Inl e" by (simp add: result_matches_def)
    with assms(1) False l Some show ?thesis
      by (auto simp: easy_step_h_def easy_step_def)
  next
    case None
    with rm have "easy_step_loop (cells_of h s) 0 = Inr (cells_of h1 s)"
      by (simp add: result_matches_def)
    with assms(1) False l None show ?thesis
      by (auto simp: easy_step_h_def easy_step_def split: sum.splits if_splits)
  qed
qed

lemma assign_h_refines:
  assumes "assign_h h s idx p = (h', r)" and "distinct s"
  shows "result_matches h' s r (assign (cells_of h s) idx p)"
proof (cases "length s \<le> idx")
  case True
  with assms(1) show ?thesis
    by (auto simp: assign_h_def assign_def result_matches_def cells_of_def)
next
  case False
  then have lt: "idx < length s" by simp
  with assms(1) cells_of_write[OF assms(2) lt, of h] show ?thesis
    by (auto simp: assign_h_def assign_def result_matches_def set_value_def cells_of_def
        split: if_splits)
qed

definition solve_matches :: "heap \<Rightarrow> error + sudoku_ref \<Rightarrow> error + sudoku \<Rightarrow> bool" where
  "solve_matches h' r p \<longleftrightarrow>
     (case r of Inr solved \<Rightarrow> p = Inr (cells_of h' solved) | Inl e \<Rightarrow> p = Inl e)"

lemma solve_h_refines:
  "solve_h h s = (h', r) \<Longrightarrow> solve_matches h' r (solve (cells_of h s))"
  "solve_loop_h h new idx ps = (h', r) \<Longrightarrow> set new \<subseteq> {..<alloc h} \<Longrightarrow>
   solve_matches h' r (solve_loop (cells_of h new) idx ps)"
proof (induction h s and h new idx ps arbitrary: h' r and h' r rule: solve_h_solve_loop_h.induct)
  case (1 h s)
  obtain h1 new where dc: "deepcopy h s = (h1, new)" by (cases "deepcopy h s")
  obtain h2 ret where es: "easy_step_h h1 new = (h2, ret)" by (cases "easy_step_h h1 new")
  note d = deepcopy_facts[OF dc]
  note rf = easy_step_h_refines[OF es d(7), unfolded d(4)]
  show ?case
  proof (cases ret)
    case (Inl e)
    with rf have "easy_step (cells_of h s) = Inl e" by simp
    from solve_cases(1)[OF this] "1.prems" solve_h_cases(1)[OF dc, of h2 e] es Inl
    show ?thesis by (auto simp: solve_matches_def)
  next
    case (Inr b)
    with rf have pe: "easy_step (cells_of h s) = Inr (cells_of h2 new, b)" by simp
    show ?thesis
    proof (cases b)
      case None
      from solve_cases(2)[OF pe[unfolded None]] "1.prems" solve_h_cases(2)[OF dc, of h2] es Inr None
      show ?thesis by (auto simp: solve_matches_def)
    next
      case (Some x2)
      obtain ci ps where x2: "x2 = (ci, ps)" by (cases x2)
      from "1.prems" solve_h_cases(3)[OF dc, of h2 ci ps] es Inr Some x2
      have run: "solve_loop_h h2 new ci ps = (h', r)" by simp
      from easy_step_h_facts(1)[OF es] d(6) have sub: "set new \<subseteq> {..<alloc h2}"
        by (simp add: keeps_def)
      from "1.IH"[OF dc[symmetric] es[symmetric] Inr Some x2[symmetric] run sub]
        solve_cases(3)[OF pe[unfolded Some x2]]
      show ?thesis by simp
    qed
  qed
next
  case (2 h new_sudoku cell_idx)
  then show ?case by (auto simp: solve_matches_def)
next
  case (3 h new_sudoku cell_idx possibility rest)
  obtain h1 new2 where dc: "deepcopy h new_sudoku = (h1, new2)" by (cases "deepcopy h new_sudoku")
  obtain h2 ra where a: "assign_h h1 new2 cell_idx possibility = (h2, ra)"
    by (cases "assign_h h1 new2 cell_idx possibility")
  note d = deepcopy_facts[OF dc]
  note ar = assign_h_refines[OF a d(7), unfolded d(4)]
  let ?N = "cells_of h new_sudoku"
  show ?case
  proof (cases ra)
    case (Some e)
    with ar have "assign ?N cell_idx possibility = Inl e" by (simp add: result_matches_def)
    with "3.prems"(1) dc a Some show ?thesis by (auto simp: solve_matches_def)
  next
    case None
    with ar have pa: "assign ?N cell_idx possibility = Inr (cells_of h2 new2)"
      by (simp add: result_matches_def)
    obtain h3 rs where sv: "solve_h h2 new2 = (h3, rs)" by (cases "solve_h h2 new2")
    note ih = "3.IH"(1)[OF dc[symmetric] a[symmetric] None sv]
    show ?thesis
    proof (cases rs)
      case (Inr solved)
      with ih have "solve (cells_of h2 new2) = Inr (cells_of h3 solved)"
        by (auto simp: solve_matches_def)
      with "3.prems"(1) dc a None sv Inr pa show ?thesis by (auto simp: solve_matches_def)
    next
      case (Inl e)
      with ih have ps: "solve (cells_of h2 new2) = Inl e" by (auto simp: solve_matches_def)
      show ?thesis
      proof (cases "e = ClashException")
        case False
        with "3.prems"(1) dc a None sv Inl pa ps show ?thesis by (auto simp: solve_matches_def)
      next
        case True
        with "3.prems"(1) dc a None sv Inl
        have run: "solve_loop_h h3 new_sudoku cell_idx rest = (h', r)" by simp
        from extends_keeps[OF d(1) assign_h_facts(1)[OF a] d(5)] solve_h_extends[OF sv]
        have ex: "extends h h3" by (rule extends_trans)
        with "3.prems"(2) have sub: "set new_sudoku \<subseteq> {..<alloc h3}"
          by (auto simp: extends_def)
        from "3.IH"(2)[OF dc[symmetric] a[symmetric] None sv[symmetric] Inl True run sub]
          extends_cells_of[OF ex "3.prems"(2)] pa ps True
        show ?thesis by simp
      qed
    qed
  qed
qed

lemma solve_h_heap_of:
  assumes "solve_h (heap_of cs) [0..<length cs] = (h', r)"
  shows "solve_matches h' r (solve cs)"
  using solve_h_refines(1)[OF assms] by (simp add: cells_of_heap_of)

section \<open>Properties of the cell model\<close>

text \<open>
  C3, as stated, fails: a non-zero integer outside \<open>[1, order\<^sup>2]\<close> becomes the only
  candidate of the cell, it does not give the full range.  Here 10 is given for order 3.
\<close>

theorem Cell_init_out_of_range:
  "Cell_init 0 0 3 (IntVal 10) =
     Inr \<lparr>row = 0, col = 0, subgrid = (0, 0), possibilities = [10]\<rparr> \<and>
   \<not> (1 \<le> (10::int) \<and> (10::int) \<le> 3 ^ 2) \<and>
   [10] \<noteq> [1..(3::int) ^ 2]"
proof -
  have "[1..(9::int)] = [1, 2, 3, 4, 5, 6, 7, 8, 9]"
    by (simp add: upto.simps)
  then show ?thesis
    by (simp add: Cell_init_def py_int_def)
qed

text \<open>
  C3, amended: for a non-zero order and a raw value that is an integer or a string,
  \<open>Cell.__init__\<close> raises nothing; the candidates are the single value \<open>n\<close> when the raw
  value is, or parses as, a non-zero integer \<open>n\<close> (whether or not \<open>n\<close> lies in
  \<open>[1, order\<^sup>2]\<close>), and the full range \<open>1, \<dots>, order\<^sup>2\<close> when it is 0, parses as 0, or is
  a string that does not parse as an integer.
\<close>

theorem Cell_init_spec:
  assumes "sudoku_order \<noteq> 0"
  shows "(n \<noteq> 0 \<longrightarrow>
            Cell_init r c sudoku_order (IntVal n) =
              Inr \<lparr>row = r, col = c, subgrid = (r div sudoku_order, c div sudoku_order),
                   possibilities = [n]\<rparr>) \<and>
         Cell_init r c sudoku_order (IntVal 0) =
              Inr \<lparr>row = r, col = c, subgrid = (r div sudoku_order, c div sudoku_order),
                   possibilities = [1..sudoku_order ^ 2]\<rparr> \<and>
         Cell_init r c sudoku_order BadStr =
              Inr \<lparr>row = r, col = c, subgrid = (r div sudoku_order, c div sudoku_order),
                   possibilities = [1..sudoku_order ^ 2]\<rparr> \<and>
         Cell_init r c sudoku_order (NumStr m) = Cell_init r c sudoku_order (IntVal m)"
  using assms by (simp add: Cell_init_def py_int_def)

theorem Cell_init_spec_witness:
  "Cell_init 4 7 3 (IntVal 5) =
     Inr \<lparr>row = 4, col = 7, subgrid = (1, 2), possibilities = [5]\<rparr> \<and>
   Cell_init 4 7 3 (IntVal 0) =
     Inr \<lparr>row = 4, col = 7, subgrid = (1, 2), possibilities = [1, 2, 3, 4, 5, 6, 7, 8, 9]\<rparr> \<and>
   Cell_init 4 7 3 BadStr =
     Inr \<lparr>row = 4, col = 7, subgrid = (1, 2), possibilities = [1, 2, 3, 4, 5, 6, 7, 8, 9]\<rparr> \<and>
   Cell_init 4 7 3 (NumStr 5) =
     Inr \<lparr>row = 4, col = 7, subgrid = (1, 2), possibilities = [5]\<rparr>"
proof -
  have o: "(3::int) \<noteq> 0" by simp
  have u: "[1..(9::int)] = [1, 2, 3, 4, 5, 6, 7, 8, 9]"
    by (simp add: upto.simps)
  from Cell_init_spec[OF o, of 5 4 7 5] u show ?thesis by simp
qed

text \<open>
  C4: \<open>Cell.eliminate(v)\<close> raises \<open>ClashException\<close> exactly when the candidates are the
  list \<open>[v]\<close> (the set \<open>{v}\<close>, as the list has no duplicates) and raises nothing else.
  Otherwise it removes \<open>v\<close> from the candidates if it is there, and returns the single
  value left when the removal took place and left exactly one candidate, and 0 in every
  other case.
\<close>

theorem cell_eliminate_spec:
  "(cell_eliminate c v = Inl ClashException \<longleftrightarrow> possibilities c = [v]) \<and>
   (\<forall>e. cell_eliminate c v = Inl e \<longrightarrow> e = ClashException) \<and>
   (distinct (possibilities c) \<longrightarrow>
      (possibilities c = [v] \<longleftrightarrow> set (possibilities c) = {v})) \<and>
   (possibilities c \<noteq> [v] \<longrightarrow>
      cell_eliminate c v =
        Inr (c\<lparr>possibilities := remove1 v (possibilities c)\<rparr>,
             if v \<in> set (possibilities c) \<and> length (remove1 v (possibilities c)) = 1
             then hd (remove1 v (possibilities c)) else 0)) \<and>
   (distinct (possibilities c) \<longrightarrow>
      set (remove1 v (possibilities c)) = set (possibilities c) - {v})"
proof (intro conjI allI impI)
  show "cell_eliminate c v = Inl ClashException \<longleftrightarrow> possibilities c = [v]"
    by (cases "possibilities c") (auto simp: cell_eliminate_def Let_def)
  show "e = ClashException" if "cell_eliminate c v = Inl e" for e
    using that by (auto simp: cell_eliminate_def Let_def split: if_splits)
  show "possibilities c = [v] \<longleftrightarrow> set (possibilities c) = {v}"
    if "distinct (possibilities c)"
  proof
    assume "set (possibilities c) = {v}"
    with that show "possibilities c = [v]"
      by (cases "possibilities c") (auto simp: insert_eq_iff dest!: subset_singletonD)
  qed simp
  show "cell_eliminate c v =
        Inr (c\<lparr>possibilities := remove1 v (possibilities c)\<rparr>,
             if v \<in> set (possibilities c) \<and> length (remove1 v (possibilities c)) = 1
             then hd (remove1 v (possibilities c)) else 0)"
    if "possibilities c \<noteq> [v]"
  proof (cases "v \<in> set (possibilities c)")
    case True
    with that show ?thesis
      by (cases "possibilities c"; cases "remove1 v (possibilities c)")
         (auto simp: cell_eliminate_def Let_def cell_value_def hd_conv_nth)
  next
    case False
    with that show ?thesis
      by (auto simp: cell_eliminate_def remove1_idem)
  qed
  show "set (remove1 v (possibilities c)) = set (possibilities c) - {v}"
    if "distinct (possibilities c)"
    using that by simp
qed

theorem cell_eliminate_spec_witness:
  "cell_eliminate \<lparr>row = 0, col = 0, subgrid = (0, 0), possibilities = [3]\<rparr> 3
     = Inl ClashException \<and>
   cell_eliminate \<lparr>row = 0, col = 0, subgrid = (0, 0), possibilities = [2, 3]\<rparr> 3
     = Inr (\<lparr>row = 0, col = 0, subgrid = (0, 0), possibilities = [2]\<rparr>, 2) \<and>
   cell_eliminate \<lparr>row = 0, col = 0, subgrid = (0, 0), possibilities = [2, 3, 4]\<rparr> 3
     = Inr (\<lparr>row = 0, col = 0, subgrid = (0, 0), possibilities = [2, 4]\<rparr>, 0) \<and>
   cell_eliminate \<lparr>row = 0, col = 0, subgrid = (0, 0), possibilities = [2]\<rparr> 3
     = Inr (\<lparr>row = 0, col = 0, subgrid = (0, 0), possibilities = [2]\<rparr>, 0) \<and>
   set (remove1 3 [2, 3, 4 :: int]) = {2, 4}"
  using cell_eliminate_spec[of "\<lparr>row = 0, col = 0, subgrid = (0, 0), possibilities = [3]\<rparr>" 3]
    cell_eliminate_spec[of "\<lparr>row = 0, col = 0, subgrid = (0, 0), possibilities = [2, 3]\<rparr>" 3]
    cell_eliminate_spec[of "\<lparr>row = 0, col = 0, subgrid = (0, 0), possibilities = [2, 3, 4]\<rparr>" 3]
    cell_eliminate_spec[of "\<lparr>row = 0, col = 0, subgrid = (0, 0), possibilities = [2]\<rparr>" 3]
  by auto

section \<open>Properties of the propagation\<close>

text \<open>
  C8: the recursion of \<open>Sudoku.eliminate\<close> is well-founded on every puzzle state and
  every cell: every argument of \<open>eliminate\<close> and of its loop lies in the accessible part
  of the call relation.  A cascade step, the recursive call for a cell that \<open>Cell.eliminate\<close>
  reports as newly set, is made on a state with strictly fewer candidates in total, and
  no call returns a state with more candidates than it was given.
\<close>

theorem eliminate_terminates:
  "eliminate_eliminate_loop_dom (Inl (s, c)) \<and>
   eliminate_eliminate_loop_dom (Inr (s, c, v, idx)) \<and>
   (idx < length s \<and> cell_eliminate (s ! idx) v = Inr (c', n) \<and> n \<noteq> 0 \<longrightarrow>
      total (s[idx := c']) < total s) \<and>
   (\<forall>r. eliminate s c = Inr r \<longrightarrow> total r \<le> total s)"
proof (intro conjI allI impI)
  show "eliminate_eliminate_loop_dom (Inl (s, c))"
    using eliminate_dom_total by (rule allE)
  show "eliminate_eliminate_loop_dom (Inr (s, c, v, idx))"
    using eliminate_dom_total by (rule allE)
  show "total (s[idx := c']) < total s"
    if "idx < length s \<and> cell_eliminate (s ! idx) v = Inr (c', n) \<and> n \<noteq> 0"
    using that total_cascade_step[of idx s v c' n] by simp
  show "total r \<le> total s" if "eliminate s c = Inr r" for r
    using that eliminate_total_partial(1)[of s c r] eliminate_dom_total
    by simp
qed

theorem eliminate_terminates_witness:
  "eliminate_eliminate_loop_dom
     (Inl ([\<lparr>row = 0, col = 0, subgrid = (0, 0), possibilities = [1]\<rparr>,
            \<lparr>row = 0, col = 1, subgrid = (0, 0), possibilities = [1, 2]\<rparr>],
           \<lparr>row = 0, col = 0, subgrid = (0, 0), possibilities = [1]\<rparr>)) \<and>
   total [\<lparr>row = 0, col = 0, subgrid = (0, 0), possibilities = [1]\<rparr>,
          \<lparr>row = 0, col = 1, subgrid = (0, 0), possibilities = [2]\<rparr>]
     < total [\<lparr>row = 0, col = 0, subgrid = (0, 0), possibilities = [1]\<rparr>,
              \<lparr>row = 0, col = 1, subgrid = (0, 0), possibilities = [1, 2]\<rparr>]"
proof -
  let ?s = "[\<lparr>row = 0, col = 0, subgrid = (0, 0), possibilities = [1]\<rparr>,
             \<lparr>row = 0, col = 1, subgrid = (0, 0), possibilities = [1, 2]\<rparr>]"
  have ce: "cell_eliminate (?s ! 1) 1 =
              Inr (\<lparr>row = 0, col = 1, subgrid = (0, 0), possibilities = [2]\<rparr>, 2)"
    by (simp add: cell_eliminate_def cell_value_def)
  from eliminate_terminates[of ?s "?s ! 0" 1 1
      "\<lparr>row = 0, col = 1, subgrid = (0, 0), possibilities = [2]\<rparr>" 2] ce
  show ?thesis by simp
qed

section \<open>Properties of the queries\<close>

text \<open>
  \<open>progress\<close> of a puzzle with at least one cell is the number of determined cells
  divided by the number of cells, and lies between 0 and 1.
\<close>

lemma progress_nonempty:
  assumes "s \<noteq> []"
  shows "\<exists>q. progress s = Inr q \<and> 0 \<le> q \<and> q \<le> 1 \<and>
             q = of_nat (length (filter (\<lambda>c. cell_value c \<noteq> 0) s)) / of_nat (length s)"
proof -
  have "length (filter (\<lambda>c. cell_value c \<noteq> 0) s) \<le> length s" by simp
  with assms show ?thesis
    by (simp add: progress_def divide_le_eq_1)
qed

text \<open>
  C10 at the empty array: \<open>validate_array\<close> accepts it with order 0, the puzzle has no
  cells, and \<open>progress\<close> divides by zero.
\<close>

theorem progress_empty_grid:
  "validate_array [] = Inr 0 \<and> Sudoku_init [] = Inr [] \<and> progress [] = Inl ZeroDivisionError"
  by (simp add: validate_array_def Sudoku_init_def cells_from_arr_def progress_def
      enumerate_eq_zip)

section \<open>Properties of the search\<close>

text \<open>
  The propagation pass on the grid \<open>branch_grid\<close> leaves \<open>branch_state\<close> and selects its
  first cell, with the candidates 2 and 3.
\<close>

lemma branch_grid_step:
  "easy_step (concat (grid_cells 2 branch_grid)) = Inr (branch_state, Some (0, [2, 3]))"
  by code_simp

text \<open>
  C1, as stated, fails: \<open>_easy_step\<close> returns at once when every cell has a value, before
  any propagation.  The grid \<open>filled_grid\<close> is completely filled and has the value 2 twice
  in its last row; \<open>solve\<close> returns it as it is and raises nothing.
\<close>

theorem solve_filled_grid_returns:
  "Sudoku_init filled_grid = Inr (concat (grid_cells 2 filled_grid)) \<and>
   filled_grid ! 3 ! 2 = 2 \<and> filled_grid ! 3 ! 3 = 2 \<and>
   solve (concat (grid_cells 2 filled_grid)) = Inr (concat (grid_cells 2 filled_grid)) \<and>
   solve (concat (grid_cells 2 filled_grid)) \<noteq> Inl ClashException"
  by code_simp

text \<open>
  C1, amended: for a validated grid with at least one empty cell that has the same given
  value at two different positions of one row, one column or one block, \<open>solve\<close> raises
  \<open>ClashException\<close> (so it returns no grid at all).
\<close>

theorem solve_duplicate_givens:
  assumes init: "Sudoku_init arr = Inr s"
    and order: "validate_array arr = Inr sudoku_order"
    and pos: "r1 < length arr" "c1 < length arr" "r2 < length arr" "c2 < length arr"
    and ne: "(r1, c1) \<noteq> (r2, c2)"
    and same: "arr ! r1 ! c1 = arr ! r2 ! c2" and given: "arr ! r1 ! c1 \<noteq> 0"
    and unit: "r1 = r2 \<or> c1 = c2 \<or>
       (int r1 div sudoku_order = int r2 div sudoku_order \<and>
        int c1 div sudoku_order = int c2 div sudoku_order)"
    and blank: "r < length arr" "c < length arr" "arr ! r ! c = 0"
  shows "solve s = Inl ClashException"
proof -
  from init order have cells: "cells_from_arr arr sudoku_order = Inr s"
    by (simp add: Sudoku_init_def)
  note g = cells_from_arr_nth[OF order cells]
  let ?n = "length arr"
  let ?i = "r1 * ?n + c1" and ?j = "r2 * ?n + c2" and ?v = "arr ! r1 ! c1"
  have bound: "a * ?n + b < length s" if "a < ?n" "b < ?n" for a b
  proof -
    from that have "a * ?n + b < Suc a * ?n" by simp
    also from that have "\<dots> \<le> ?n * ?n" by (intro mult_le_mono1) simp
    finally show ?thesis using g(1) by simp
  qed
  have ci: "s ! ?i = cell_of sudoku_order r1 c1 ?v"
    and cj: "s ! ?j = cell_of sudoku_order r2 c2 ?v"
    using g(2)[OF pos(1,2)] g(2)[OF pos(3,4)] same by simp_all
  from ci cj given have pi: "possibilities (s ! ?i) = [?v]" and pj: "possibilities (s ! ?j) = [?v]"
    by (simp_all add: cell_of_def)
  from ci cj ne unit have "conflicts (s ! ?i) (s ! ?j)"
    by (auto simp: conflicts_def cell_eq_def matches_def cell_of_def)
  from easy_step_loop_clash[OF bound[OF pos(1,2)] bound[OF pos(3,4)] _ this pi pj given, of 0]
  have run: "easy_step_loop s 0 = Inl ClashException" by simp
  have "\<not> is_solved s"
  proof -
    from pos ne have "2 \<le> ?n" by (cases "?n"; cases "?n - 1") auto
    with g(6) have "2 \<le> sudoku_order * sudoku_order" by simp
    moreover have "0 < sudoku_order" using g(5) pos(1) by (cases arr) simp_all
    ultimately have "2 \<le> sudoku_order ^ 2" by (simp add: power2_eq_square)
    then have "length [1..sudoku_order ^ 2] \<noteq> 1" by simp
    with g(2)[OF blank(1,2)] blank(3) have "cell_value (s ! (r * ?n + c)) = 0"
      by (simp add: cell_of_def cell_value_def)
    with bound[OF blank(1,2)] show ?thesis
      by (auto simp: is_solved_def list_all_length)
  qed
  with run have "easy_step s = Inl ClashException" by (simp add: easy_step_def)
  then show ?thesis by (rule solve_cases(1))
qed

theorem solve_duplicate_givens_witness:
  "Sudoku_init open_grid = Inr (concat (grid_cells 2 open_grid)) \<and>
   open_grid ! 3 ! 2 = open_grid ! 3 ! 3 \<and>
   solve (concat (grid_cells 2 open_grid)) = Inl ClashException"
proof -
  have i: "Sudoku_init open_grid = Inr (concat (grid_cells 2 open_grid))" by code_simp
  have v: "validate_array open_grid = Inr 2" by code_simp
  have e: "open_grid ! 3 ! 2 = open_grid ! 3 ! 3" "open_grid ! 3 ! 2 \<noteq> 0"
    "open_grid ! 0 ! 0 = 0" "length open_grid = 4"
    by (simp_all add: open_grid_def)
  from solve_duplicate_givens[OF i v, of 3 2 3 3 0 0] e i show ?thesis by simp
qed

text \<open>
  C2, as stated, fails on the same input: the grid \<open>solve\<close> returns for \<open>filled_grid\<close>
  holds the value 2 in its last two cells, which share a row.
\<close>

theorem solve_filled_grid_conflict:
  "solve (concat (grid_cells 2 filled_grid)) = Inr (concat (grid_cells 2 filled_grid)) \<and>
   matches (concat (grid_cells 2 filled_grid) ! 14) (concat (grid_cells 2 filled_grid) ! 15) \<and>
   cell_value (concat (grid_cells 2 filled_grid) ! 14) =
     cell_value (concat (grid_cells 2 filled_grid) ! 15)"
  by code_simp

text \<open>
  C2, amended: \<open>solve\<close> returns only puzzles in which every cell has a value.  When the
  puzzle it is given is not already completely determined, no two distinct cells of the
  returned puzzle that share a row, column or block hold the same value; a puzzle that is
  already completely determined is returned unchanged, with no check.  This holds for
  every well-formed puzzle, so for every puzzle \<open>Sudoku.__init__\<close> builds
  (\<open>Sudoku_init_well_formed\<close>) and every puzzle the search reaches from it.
\<close>

theorem solve_no_conflicts:
  assumes "well_formed s" and "solve s = Inr r"
  shows "is_solved r \<and> (is_solved s \<longrightarrow> r = s) \<and>
    (\<not> is_solved s \<longrightarrow>
       (\<forall>i<length r. \<forall>j<length r. i \<noteq> j \<and> matches (r ! i) (r ! j) \<longrightarrow>
          cell_value (r ! i) \<noteq> cell_value (r ! j)))"
proof (intro conjI impI)
  show id: "r = s" if "is_solved s"
    using that assms(2) solve_cases(2)[of s s] by (simp add: easy_step_def)
  show "is_solved r"
  proof (cases "is_solved s")
    case True
    with id show ?thesis by simp
  next
    case False
    with solve_sound(1)[OF assms(2,1)] show ?thesis by simp
  qed
  assume ns: "\<not> is_solved s"
  with solve_sound(1)[OF assms(2,1)] have r: "is_solved r" "consistent r" by simp_all
  show "\<forall>i<length r. \<forall>j<length r. i \<noteq> j \<and> matches (r ! i) (r ! j) \<longrightarrow>
          cell_value (r ! i) \<noteq> cell_value (r ! j)"
  proof (intro allI impI)
    fix i j assume ij: "i < length r" "j < length r" "i \<noteq> j \<and> matches (r ! i) (r ! j)"
    from r(1) ij(1) have "cell_value (r ! i) \<noteq> 0" by (simp add: is_solved_def list_all_length)
    with r(2) ij show "cell_value (r ! i) \<noteq> cell_value (r ! j)" by (simp add: consistent_def)
  qed
qed

theorem solve_no_conflicts_witness:
  "Sudoku_init first_grid = Inr (concat (grid_cells 2 first_grid)) \<and>
   \<not> is_solved (concat (grid_cells 2 first_grid)) \<and>
   solve (concat (grid_cells 2 first_grid)) = Inr (concat (grid_cells 2 solved_grid)) \<and>
   is_solved (concat (grid_cells 2 solved_grid)) \<and>
   matches (concat (grid_cells 2 solved_grid) ! 0) (concat (grid_cells 2 solved_grid) ! 1) \<and>
   cell_value (concat (grid_cells 2 solved_grid) ! 0) \<noteq>
     cell_value (concat (grid_cells 2 solved_grid) ! 1)"
proof -
  have i: "Sudoku_init first_grid = Inr (concat (grid_cells 2 first_grid))" by code_simp
  have n: "\<not> is_solved (concat (grid_cells 2 first_grid))" by code_simp
  have r: "solve (concat (grid_cells 2 first_grid)) = Inr (concat (grid_cells 2 solved_grid))"
    by code_simp
  have m: "matches (concat (grid_cells 2 solved_grid) ! 0) (concat (grid_cells 2 solved_grid) ! 1)"
    by code_simp
  have l: "length (concat (grid_cells 2 solved_grid)) = 16" by code_simp
  from solve_no_conflicts[OF Sudoku_init_well_formed[OF i] r] n m l
  have "is_solved (concat (grid_cells 2 solved_grid)) \<and>
    cell_value (concat (grid_cells 2 solved_grid) ! 0) \<noteq>
     cell_value (concat (grid_cells 2 solved_grid) ! 1)"
    by simp
  with i n r m show ?thesis by simp
qed

text \<open>
  C5: when \<open>_easy_step\<close> returns, its result is \<open>None\<close> exactly when the puzzle it leaves
  is solved.  Otherwise the result is a cell with more than one candidate, together with
  its candidates, such that every cell with more than one candidate has more candidates,
  or as many and an index that is not lower.  For a well-formed puzzle that the
  propagation pass leaves unsolved, such a cell is always selected.
\<close>

theorem easy_step_branch_cell:
  "(easy_step s = Inr (new, ret) \<longrightarrow>
      (ret = None \<longleftrightarrow> is_solved new) \<and>
      (\<forall>idx ps. ret = Some (idx, ps) \<longrightarrow>
         idx < length new \<and> ps = possibilities (new ! idx) \<and> 1 < length ps \<and>
         (\<forall>j<length new. 1 < length (possibilities (new ! j)) \<longrightarrow>
            length ps < length (possibilities (new ! j)) \<or>
            (length ps = length (possibilities (new ! j)) \<and> idx \<le> j)))) \<and>
   (well_formed s \<and> \<not> is_solved s \<and> easy_step_loop s 0 = Inr new \<and> \<not> is_solved new \<longrightarrow>
      (\<exists>idx ps. easy_step s = Inr (new, Some (idx, ps))))"
proof (intro conjI impI allI)
  assume es: "easy_step s = Inr (new, ret)"
  then show "ret = None \<longleftrightarrow> is_solved new"
    by (auto simp: easy_step_def split: if_splits sum.splits)
  fix idx ps assume "ret = Some (idx, ps)"
  with es have ess: "easy_step s = Inr (new, Some (idx, ps))" by simp
  note f = easy_step_Some[OF ess]
  from f(3) show "idx < length new" .
  from f(4) show "ps = possibilities (new ! idx)" .
  from f(5) show "1 < length ps" .
  fix j assume j: "j < length new" "1 < length (possibilities (new ! j))"
  then have "(j, possibilities (new ! j)) \<in> set (branch_candidates new)"
    by (simp add: branch_candidates_iff)
  from py_min_least[OF f(9) this]
  show "length ps < length (possibilities (new ! j)) \<or>
        (length ps = length (possibilities (new ! j)) \<and> idx \<le> j)"
    by (auto simp: tuple_less_def key_def)
next
  assume a: "well_formed s \<and> \<not> is_solved s \<and> easy_step_loop s 0 = Inr new \<and> \<not> is_solved new"
  with easy_step_loop_shrinks[of s 0 new] have "well_formed new"
    by (auto intro: well_formed_shrinks)
  with a not_solved_candidates[of new] have "branch_candidates new \<noteq> []" by simp
  then obtain m where "py_min (branch_candidates new) = Inr m"
    by (cases "branch_candidates new") (simp_all add: py_min_def)
  with a have "easy_step s = Inr (new, Some m)" by (simp add: easy_step_def)
  then show "\<exists>idx ps. easy_step s = Inr (new, Some (idx, ps))" by (cases m) auto
qed

theorem easy_step_branch_cell_witness:
  "easy_step (concat (grid_cells 2 branch_grid)) = Inr (branch_state, Some (0, [2, 3])) \<and>
   \<not> is_solved branch_state \<and>
   possibilities (branch_state ! 0) = [2, 3] \<and>
   length (possibilities (branch_state ! 1)) = 2 \<and>
   length (possibilities (branch_state ! 5)) = 3"
proof -
  have l: "1 < length (possibilities (branch_state ! 5))" "5 < length branch_state" by code_simp+
  have e: "length (possibilities (branch_state ! 1)) = 2"
    "length (possibilities (branch_state ! 5)) = 3" by code_simp+
  from easy_step_branch_cell[of "concat (grid_cells 2 branch_grid)" branch_state "Some (0, [2, 3])"]
    branch_grid_step
  have "\<not> is_solved branch_state \<and> [2, 3] = possibilities (branch_state ! 0)"
    by simp
  with branch_grid_step e show ?thesis by simp
qed

text \<open>
  C6: for a well-formed puzzle on which \<open>_easy_step\<close> selects a branch cell, the candidates
  of that cell are strictly ascending and \<open>solve\<close> is the loop over them in this order.
  Every candidate either clashes or solves the puzzle; the result of \<open>solve\<close> is the
  result for the first candidate that does not clash, whatever the later candidates would
  give, and \<open>ClashException\<close> when all of them clash.
\<close>

theorem solve_tries_in_order:
  assumes wf: "well_formed s" and es: "easy_step s = Inr (new, Some (idx, ps))"
  shows "sorted_wrt (<) ps \<and>
    solve s = solve_loop new idx ps \<and>
    (\<forall>k<length ps.
       solve (new[idx := (new ! idx)\<lparr>possibilities := [ps ! k]\<rparr>]) = Inl ClashException \<or>
       (\<exists>r. solve (new[idx := (new ! idx)\<lparr>possibilities := [ps ! k]\<rparr>]) = Inr r)) \<and>
    (\<forall>k r. k < length ps \<and>
       (\<forall>k'<k. solve (new[idx := (new ! idx)\<lparr>possibilities := [ps ! k']\<rparr>]) = Inl ClashException) \<and>
       solve (new[idx := (new ! idx)\<lparr>possibilities := [ps ! k]\<rparr>]) = Inr r \<longrightarrow>
       solve s = Inr r) \<and>
    ((\<forall>k<length ps.
       solve (new[idx := (new ! idx)\<lparr>possibilities := [ps ! k]\<rparr>]) = Inl ClashException) \<longrightarrow>
     solve s = Inl ClashException)"
proof (intro conjI allI impI)
  note f = easy_step_Some[OF es]
  note wfn = easy_step_well_formed(1)[OF es wf]
  from wfn f(3,4) show "sorted_wrt (<) ps" by (simp add: well_formed_def wf_cell_def)
  show run: "solve s = solve_loop new idx ps" by (rule solve_cases(3)[OF es])
  show "solve (new[idx := (new ! idx)\<lparr>possibilities := [ps ! k]\<rparr>]) = Inl ClashException \<or>
       (\<exists>r. solve (new[idx := (new ! idx)\<lparr>possibilities := [ps ! k]\<rparr>]) = Inr r)"
    if "k < length ps" for k
  proof -
    from that f(3,4) have a: "assign new idx (ps ! k) =
        Inr (new[idx := (new ! idx)\<lparr>possibilities := [ps ! k]\<rparr>])"
      by (simp add: assign_def set_value_def)
    from well_formed_assign[OF a wfn] solve_error(1) show ?thesis
      by (cases "solve (new[idx := (new ! idx)\<lparr>possibilities := [ps ! k]\<rparr>])") auto
  qed
  show "solve s = Inr r"
    if "k < length ps \<and>
       (\<forall>k'<k. solve (new[idx := (new ! idx)\<lparr>possibilities := [ps ! k']\<rparr>]) = Inl ClashException) \<and>
       solve (new[idx := (new ! idx)\<lparr>possibilities := [ps ! k]\<rparr>]) = Inr r" for k r
    using that solve_loop_first_success[OF f(3), of ps k r] f(4) run by simp
  show "solve s = Inl ClashException"
    if "\<forall>k<length ps.
       solve (new[idx := (new ! idx)\<lparr>possibilities := [ps ! k]\<rparr>]) = Inl ClashException"
  proof -
    from that have "\<forall>q \<in> set ps.
        solve (new[idx := (new ! idx)\<lparr>possibilities := [q]\<rparr>]) = Inl ClashException"
      by (auto simp: in_set_conv_nth)
    with solve_loop_all_clash[OF f(3), of ps] f(4) run show ?thesis by simp
  qed
qed

theorem solve_tries_in_order_witness:
  "Sudoku_init branch_grid = Inr (concat (grid_cells 2 branch_grid)) \<and>
   easy_step (concat (grid_cells 2 branch_grid)) = Inr (branch_state, Some (0, [2, 3])) \<and>
   solve (branch_state[0 := (branch_state ! 0)\<lparr>possibilities := [2]\<rparr>]) = Inl ClashException \<and>
   solve (branch_state[0 := (branch_state ! 0)\<lparr>possibilities := [3]\<rparr>])
     = Inr (concat (grid_cells 2 branch_solution)) \<and>
   solve (concat (grid_cells 2 branch_grid)) = Inr (concat (grid_cells 2 branch_solution))"
proof -
  have i: "Sudoku_init branch_grid = Inr (concat (grid_cells 2 branch_grid))" by code_simp
  have c2: "solve (branch_state[0 := (branch_state ! 0)\<lparr>possibilities := [2]\<rparr>])
     = Inl ClashException" by code_simp
  have c3: "solve (branch_state[0 := (branch_state ! 0)\<lparr>possibilities := [3]\<rparr>])
     = Inr (concat (grid_cells 2 branch_solution))" by code_simp
  from solve_tries_in_order[OF Sudoku_init_well_formed[OF i] branch_grid_step] c2 c3
  have "solve (concat (grid_cells 2 branch_grid)) = Inr (concat (grid_cells 2 branch_solution))"
    by (elim conjE allE[where x = 1] allE[where x = "concat (grid_cells 2 branch_solution)"])
       (simp add: less_Suc_eq)
  with i branch_grid_step c2 c3 show ?thesis by simp
qed

text \<open>
  The same step on the store: the propagation pass runs on the copy at the addresses
  16 to 31 and allocates nothing.
\<close>

lemma branch_grid_step_h:
  "snd (easy_step_h (fst (deepcopy (heap_of (concat (grid_cells 2 branch_grid))) [0..<16]))
          [16..<32]) = Inr (Some (0, [2, 3])) \<and>
   alloc (fst (easy_step_h (fst (deepcopy (heap_of (concat (grid_cells 2 branch_grid))) [0..<16]))
          [16..<32])) = 32"
  by code_simp

text \<open>
  C9: every value in the list of candidates that \<open>_easy_step\<close> returns for the branch cell
  is a candidate of that cell in the propagated puzzle, of which every iteration of the
  loop takes a fresh copy; so the assignment returns the copy with the cell set to that
  value and does not raise \<open>ClashException\<close>.  On the store: in whatever store \<open>h\<close> an
  iteration of the loop starts, which differs from the store \<open>h2\<close> after the propagation
  pass only at addresses allocated since, the branch cell of the copy made by
  \<open>copy.deepcopy\<close> has the tried value among its candidates at the moment of the assignment,
  and the assignment writes that cell and raises nothing.
\<close>

theorem branch_assign_succeeds:
  "(easy_step s = Inr (new, Some (idx, ps)) \<and> p \<in> set ps \<longrightarrow>
      p \<in> set (possibilities (new ! idx)) \<and>
      assign new idx p = Inr (new[idx := (new ! idx)\<lparr>possibilities := [p]\<rparr>]) \<and>
      assign new idx p \<noteq> Inl ClashException \<and>
      solve s = solve_loop new idx ps) \<and>
   (easy_step_h h1 new_ref = (h2, Inr (Some (idx, ps))) \<and> set new_ref \<subseteq> {..<alloc h2} \<and>
    extends h2 h \<and> deepcopy h new_ref = (h', copy_ref) \<and> p \<in> set ps \<longrightarrow>
      p \<in> set (possibilities (obj h' (copy_ref ! idx))) \<and>
      assign_h h' copy_ref idx p =
        (write_cell h' (copy_ref ! idx) ((obj h' (copy_ref ! idx))\<lparr>possibilities := [p]\<rparr>), None))"
proof (intro conjI impI)
  assume a: "easy_step s = Inr (new, Some (idx, ps)) \<and> p \<in> set ps"
  then have e: "easy_step s = Inr (new, Some (idx, ps))" and p: "p \<in> set ps" by simp_all
  from easy_step_Some(3,4)[OF e] p
  show "p \<in> set (possibilities (new ! idx))" by simp
  from easy_step_Some(3,4)[OF e] p
  show "assign new idx p = Inr (new[idx := (new ! idx)\<lparr>possibilities := [p]\<rparr>])"
    by (simp add: assign_def set_value_def)
  then show "assign new idx p \<noteq> Inl ClashException" by simp
  from solve_cases(3)[OF e] show "solve s = solve_loop new idx ps" .
next
  assume a: "easy_step_h h1 new_ref = (h2, Inr (Some (idx, ps))) \<and> set new_ref \<subseteq> {..<alloc h2} \<and>
    extends h2 h \<and> deepcopy h new_ref = (h', copy_ref) \<and> p \<in> set ps"
  then have e: "easy_step_h h1 new_ref = (h2, Inr (Some (idx, ps)))"
    and sub: "set new_ref \<subseteq> {..<alloc h2}" and ext: "extends h2 h"
    and d: "deepcopy h new_ref = (h', copy_ref)" and p: "p \<in> set ps" by simp_all
  from easy_step_h_facts(3)[OF e refl]
  have idx: "idx < length new_ref" and ps: "ps = possibilities (obj h2 (new_ref ! idx))"
    by simp_all
  from extends_cells_of[OF ext sub] deepcopy_facts(4)[OF d]
  have eq: "cells_of h' copy_ref = cells_of h2 new_ref" by simp
  from deepcopy_facts(8)[OF d] idx have idx': "idx < length copy_ref" by simp
  from eq idx idx' have o: "obj h' (copy_ref ! idx) = obj h2 (new_ref ! idx)"
    by (metis cells_of_def nth_map)
  with ps p show g: "p \<in> set (possibilities (obj h' (copy_ref ! idx)))" by simp
  with idx' show "assign_h h' copy_ref idx p =
        (write_cell h' (copy_ref ! idx) ((obj h' (copy_ref ! idx))\<lparr>possibilities := [p]\<rparr>), None)"
    by (simp add: assign_h_def set_value_def)
qed

theorem branch_assign_succeeds_witness:
  "easy_step (concat (grid_cells 2 branch_grid)) = Inr (branch_state, Some (0, [2, 3])) \<and>
   assign branch_state 0 3 = Inr (branch_state[0 := (branch_state ! 0)\<lparr>possibilities := [3]\<rparr>]) \<and>
   snd (assign_h
          (fst (deepcopy
             (fst (easy_step_h
                (fst (deepcopy (heap_of (concat (grid_cells 2 branch_grid))) [0..<16]))
                [16..<32]))
             [16..<32]))
          [32..<48] 0 3) = None"
proof -
  let ?h1 = "fst (deepcopy (heap_of (concat (grid_cells 2 branch_grid))) [0..<16])"
  let ?h2 = "fst (easy_step_h ?h1 [16..<32])"
  let ?h' = "fst (deepcopy ?h2 [16..<32])"
  from branch_grid_step_h have e: "easy_step_h ?h1 [16..<32] = (?h2, Inr (Some (0, [2, 3])))"
    and al: "alloc ?h2 = 32" by (simp_all add: prod_eq_iff)
  from al have sub: "set [16..<32] \<subseteq> {..<alloc ?h2}" by auto
  from al have d: "deepcopy ?h2 [16..<32] = (?h', [32..<48])"
    by (simp add: deepcopy_def)
  from branch_assign_succeeds[of "concat (grid_cells 2 branch_grid)" branch_state 0 "[2, 3]" 3
      ?h1 "[16..<32]" ?h2 ?h2 ?h' "[32..<48]"]
    branch_grid_step e sub d extends_refl[of ?h2]
  show ?thesis by simp
qed

section \<open>What \<open>solve\<close> changes\<close>

text \<open>
  C7: a call of \<open>solve\<close> on a puzzle whose cells are distinct objects, whether it returns
  a puzzle or raises, leaves every object that existed before the call as it was: it
  changes only objects it has allocated itself.  So the cells of the puzzle it is called
  on, with their candidates, are unchanged, and a puzzle it returns consists of new
  objects only.
\<close>

theorem solve_h_leaves_input_unchanged:
  assumes "solve_h h s = (h', r)" and "distinct s"
  shows "alloc h \<le> alloc h' \<and> (\<forall>a<alloc h. obj h' a = obj h a) \<and>
    (set s \<subseteq> {..<alloc h} \<longrightarrow> cells_of h' s = cells_of h s) \<and>
    (\<forall>solved. r = Inr solved \<longrightarrow> (\<forall>a \<in> set solved. alloc h \<le> a))"
proof -
  from solve_h_extends[OF assms(1)] have e: "extends h h'" .
  then have "alloc h \<le> alloc h' \<and> (\<forall>a<alloc h. obj h' a = obj h a)" by (simp add: extends_def)
  moreover from e have "set s \<subseteq> {..<alloc h} \<longrightarrow> cells_of h' s = cells_of h s"
    by (auto intro: extends_cells_of)
  moreover from assms(1) solve_h_fresh(1) have
    "\<forall>solved. r = Inr solved \<longrightarrow> (\<forall>a \<in> set solved. alloc h \<le> a)" by blast
  ultimately show ?thesis by blast
qed

lemma first_grid_solved_h:
  "cells_of (fst (solve_h (heap_of (concat (grid_cells 2 first_grid))) [0..<16])) [16..<32]
     = concat (grid_cells 2 solved_grid)"
  by code_simp

theorem solve_h_leaves_input_unchanged_witness:
  "cells_of (fst (solve_h (heap_of (concat (grid_cells 2 first_grid))) [0..<16])) [0..<16]
     = concat (grid_cells 2 first_grid) \<and>
   cells_of (fst (solve_h (heap_of (concat (grid_cells 2 first_grid))) [0..<16])) [16..<32]
     = concat (grid_cells 2 solved_grid)"
proof -
  let ?h = "heap_of (concat (grid_cells 2 first_grid))"
  have l: "length (concat (grid_cells 2 first_grid)) = 16" by code_simp
  then have a: "alloc ?h = 16" by (simp add: heap_of_def)
  from solve_h_leaves_input_unchanged[of ?h "[0..<16]" "fst (solve_h ?h [0..<16])"
      "snd (solve_h ?h [0..<16])"] a
  have "cells_of (fst (solve_h ?h [0..<16])) [0..<16] = cells_of ?h [0..<16]"
    by auto
  with cells_of_heap_of[of "concat (grid_cells 2 first_grid)"] l first_grid_solved_h
  show ?thesis by simp
qed

end
